theory Spec2Isabelle
  imports Main
begin

section \<open>Values handed to the animation engine\<close>

text \<open>
  The module \<^verbatim>\<open>src/runtime/composables/use-gsap/index.ts\<close> is glue between a reactive
  host (Vue, VueUse) and an animation engine (gsap). Neither is part of the module, so
  both are modelled by what the module can observe of them: the engine by the log of the
  calls made to it, the handles it returns and the calls it refuses by throwing, the
  host by the queues into which the module registers callbacks and by the events that
  run them.
\<close>

text \<open>Values of option fields and of the arguments of \<^verbatim>\<open>progress\<close> and \<^verbatim>\<open>seek\<close>.\<close>

datatype jsval = Num int | Str string | Fn nat | Obj "(string \<times> jsval) list"

type_synonym vars = "(string \<times> jsval) list"

text \<open>
  An argument the module hands to an engine factory. The module never reads or copies an
  option object (\<^verbatim>\<open>gsap.TweenVars\<close>, \<^verbatim>\<open>gsap.TimelineVars\<close>): it passes on the object it
  was given, \<open>Ref a\<close> for the object at address \<open>a\<close>, whatever the caller or the engine
  has written into it since. \<open>Prop a f\<close> is the value the property \<open>f\<close> of that object has
  when the call is made (\<^verbatim>\<open>options.from\<close>, \<^verbatim>\<open>options.to\<close>).
\<close>

datatype arg = Ref nat | Prop nat string

text \<open>
  A resolved target, \<^verbatim>\<open>gsap.TweenTarget | undefined\<close>, where
  \<^verbatim>\<open>TweenTarget = string | object | null\<close>.
\<close>

datatype target = Undefined | Null | Selector string | Element nat

text \<open>The guard \<^verbatim>\<open>if (!el) return\<close>: the values on which \<^verbatim>\<open>!el\<close> is true.\<close>

fun falsy :: "target \<Rightarrow> bool" where
  "falsy Undefined = True"
| "falsy Null = True"
| "falsy (Selector s) = (s = [])"
| "falsy (Element e) = False"

text \<open>
  \<^verbatim>\<open>MaybeRefOrGetter<T>\<close>: a plain value, or a ref or getter that reads a reactive
  source of the host.
\<close>

datatype target_ref = Plain target | Reactive nat

type_synonym handle = nat

datatype plugin = ScrollTrigger | Plugin string

datatype kind = FSet | FTo | FFrom | FFromTo

datatype member = Play | Pause | Restart | Resume | Progress jsval | Seek jsval | IsActive | Kill

text \<open>What the engine and the subscribers of an event hook see, in order.\<close>

datatype event =
    RegisterPlugin "plugin list"
  | TweenCreate kind target "arg list" handle
  | TimelineCreate "nat option" handle
  | Call handle member
  | Notified nat handle

section \<open>Closures of the module\<close>

text \<open>
  Each function value the module creates is a constructor carrying what the function
  captured.
  \<^item> \<open>UpdateFn el k args c\<close> is \<^verbatim>\<open>() => updateFactory(toValue(el))\<close> of
    \<^verbatim>\<open>activationFn\<close>, where \<^verbatim>\<open>updateFactory\<close> is the arrow function written in
    \<^verbatim>\<open>set\<close>, \<^verbatim>\<open>to\<close>, \<^verbatim>\<open>from\<close> or \<^verbatim>\<open>fromTo\<close> (\<open>k\<close> says which, \<open>args\<close> are the
    arguments it passes on after the element) and \<open>c\<close> is the variable \<^verbatim>\<open>let tween\<close> of that call, which
    the arrow function assigns.
  \<^item> \<open>KillTween t\<close> is \<^verbatim>\<open>() => tween?.kill()\<close> of \<^verbatim>\<open>activationFn\<close>; \<open>t\<close> is the
    value of the parameter \<^verbatim>\<open>tween\<close> of \<^verbatim>\<open>activationFn\<close>, a variable of its own that
    nothing assigns after the call.
  \<^item> \<open>TriggerHook k tl\<close> is \<^verbatim>\<open>() => onMount.trigger(tl)\<close> of \<^verbatim>\<open>timeline\<close>.
  \<^item> \<open>OffFn k h\<close> is \<^verbatim>\<open>() => off(fn)\<close>, which the \<^verbatim>\<open>on\<close> of an event hook creates.
\<close>

text \<open>
  Handlers of an event hook. \<open>KillArg i\<close> is the arrow function \<^verbatim>\<open>(tl) => tl.kill()\<close>
  of \<^verbatim>\<open>timeline\<close>, \<open>i\<close> numbering the evaluation that created it (two evaluations give
  two function objects); \<open>UserFn n\<close> is a function of the caller.
\<close>

datatype handler = KillArg nat | UserFn nat

datatype closure =
    UpdateFn target_ref kind "arg list" nat
  | KillTween "handle option"
  | TriggerHook nat handle
  | OffFn nat handler

text \<open>
  What can be thrown: a member call on undefined, and whatever an engine factory throws
  at the arguments it does not accept (an invalid selector, for one).
\<close>

datatype fault = TypeError | EngineError kind target "arg list"

section \<open>State of engine and host\<close>

record world =
  engine_throws :: "kind \<Rightarrow> target \<Rightarrow> arg list \<Rightarrow> bool"
  log :: "event list"
  next_handle :: nat
  cells :: "nat \<Rightarrow> handle option"
  next_cell :: nat
  sources :: "nat \<Rightarrow> target"
  watchers :: "closure list"
  post_queue :: "closure list"
  has_scope :: bool
  disposers :: "closure list"
  has_instance :: bool
  mounted_cbs :: "closure list"
  hooks :: "nat \<Rightarrow> handler list"
  next_hook :: nat
  next_fn :: nat

text \<open>
  A component in its setup: an active scope and a current instance, nothing registered.
  Which calls the engine refuses is a parameter.
\<close>

definition init :: "(kind \<Rightarrow> target \<Rightarrow> arg list \<Rightarrow> bool) \<Rightarrow> world" where
  "init thr = \<lparr> engine_throws = thr, log = [], next_handle = 0, cells = (\<lambda>c. None), next_cell = 0,
            sources = (\<lambda>r. Undefined), watchers = [], post_queue = [],
            has_scope = True, disposers = [], has_instance = True, mounted_cbs = [],
            hooks = (\<lambda>k. []), next_hook = 0, next_fn = 0 \<rparr>"

text \<open>An engine that accepts every call.\<close>

definition accepts_all :: "kind \<Rightarrow> target \<Rightarrow> arg list \<Rightarrow> bool" where
  "accepts_all k el args = False"

subsection \<open>The engine\<close>

text \<open>\<^verbatim>\<open>gsap.registerPlugin(...plugins)\<close>\<close>

definition registerPlugin :: "plugin list \<Rightarrow> world \<Rightarrow> world" where
  "registerPlugin ps w = w\<lparr>log := log w @ [RegisterPlugin ps]\<rparr>"

text \<open>
  \<^verbatim>\<open>gsap.set\<close>, \<^verbatim>\<open>gsap.to\<close>, \<^verbatim>\<open>gsap.from\<close>, \<^verbatim>\<open>gsap.fromTo\<close>: a call throws, or returns a
  new tween object.
\<close>

definition gsap_tween ::
  "kind \<Rightarrow> target \<Rightarrow> arg list \<Rightarrow> world \<Rightarrow> fault + handle \<times> world" where
  "gsap_tween k el args w =
     (if engine_throws w k el args then Inl (EngineError k el args)
      else Inr (next_handle w,
                w\<lparr>log := log w @ [TweenCreate k el args (next_handle w)],
                  next_handle := Suc (next_handle w)\<rparr>))"

text \<open>\<^verbatim>\<open>gsap.timeline(vars)\<close>\<close>

definition gsap_timeline :: "nat option \<Rightarrow> world \<Rightarrow> handle \<times> world" where
  "gsap_timeline v w =
     (next_handle w,
      w\<lparr>log := log w @ [TimelineCreate v (next_handle w)],
        next_handle := Suc (next_handle w)\<rparr>)"

text \<open>
  A member call \<^verbatim>\<open>x.m()\<close> on a value that may be undefined faults on undefined; the
  optional call \<^verbatim>\<open>x?.m()\<close> skips it.
\<close>

fun member_call :: "handle option \<Rightarrow> member \<Rightarrow> world \<Rightarrow> fault + world" where
  "member_call None m w = Inl TypeError"
| "member_call (Some h) m w = Inr (w\<lparr>log := log w @ [Call h m]\<rparr>)"

fun opt_member_call :: "handle option \<Rightarrow> member \<Rightarrow> world \<Rightarrow> fault + world" where
  "opt_member_call None m w = Inr w"
| "opt_member_call (Some h) m w = member_call (Some h) m w"

subsection \<open>The host: reactive values, post-flush effects, scope, mount, event hooks\<close>

text \<open>\<^verbatim>\<open>toValue(el)\<close>\<close>

fun toValue :: "target_ref \<Rightarrow> world \<Rightarrow> target" where
  "toValue (Plain v) w = v"
| "toValue (Reactive r) w = sources w r"

text \<open>
  \<^verbatim>\<open>watchPostEffect(fn)\<close> is \<^verbatim>\<open>watchEffect\<close> with \<^verbatim>\<open>flush: 'post'\<close>: in the browser
  the effect is registered and every run of it, the first one too, is queued for the
  host's next post flush (after the component has rendered; in a setup, at mount). The
  doc comment of \<^verbatim>\<open>activationFn\<close> says the same: "Function to activate the tween on
  mount", "The update function to run on mount". An effect already queued is not queued
  a second time.
\<close>

definition enqueue :: "closure \<Rightarrow> closure list \<Rightarrow> closure list" where
  "enqueue job q = (if job \<in> set q then q else q @ [job])"

definition watchPostEffect :: "closure \<Rightarrow> world \<Rightarrow> world" where
  "watchPostEffect fn w =
     w\<lparr>watchers := watchers w @ [fn], post_queue := enqueue fn (post_queue w)\<rparr>"

text \<open>
  \<^verbatim>\<open>tryOnScopeDispose(fn)\<close>: \<^verbatim>\<open>onScopeDispose(fn)\<close> when there is an active scope,
  nothing otherwise.
\<close>

definition tryOnScopeDispose :: "closure \<Rightarrow> world \<Rightarrow> world" where
  "tryOnScopeDispose fn w =
     (if has_scope w then w\<lparr>disposers := disposers w @ [fn]\<rparr> else w)"

text \<open>
  \<^verbatim>\<open>createEventHook()\<close>: a new, empty set of handlers; \<^verbatim>\<open>on\<close> adds a handler (and
  registers its removal with the scope), \<^verbatim>\<open>off\<close> deletes the given function object
  from the set, \<^verbatim>\<open>trigger\<close> calls the handlers in order.
\<close>

definition createEventHook :: "world \<Rightarrow> nat \<times> world" where
  "createEventHook w =
     (next_hook w, w\<lparr>hooks := (hooks w)(next_hook w := []), next_hook := Suc (next_hook w)\<rparr>)"

definition hook_off :: "nat \<Rightarrow> handler \<Rightarrow> world \<Rightarrow> world" where
  "hook_off k h w = w\<lparr>hooks := (hooks w)(k := removeAll h (hooks w k))\<rparr>"

definition hook_on :: "nat \<Rightarrow> handler \<Rightarrow> world \<Rightarrow> world" where
  "hook_on k h w =
     tryOnScopeDispose (OffFn k h)
       (w\<lparr>hooks := (hooks w)(k := (if h \<in> set (hooks w k) then hooks w k else hooks w k @ [h]))\<rparr>)"

fun run_handler :: "handler \<Rightarrow> handle \<Rightarrow> world \<Rightarrow> fault + world" where
  "run_handler (KillArg i) t w = member_call (Some t) Kill w"
| "run_handler (UserFn n) t w = Inr (w\<lparr>log := log w @ [Notified n t]\<rparr>)"

fun run_handlers :: "handler list \<Rightarrow> handle \<Rightarrow> world \<Rightarrow> fault + world" where
  "run_handlers [] t w = Inr w"
| "run_handlers (h # hs) t w =
     (case run_handler h t w of Inl e \<Rightarrow> Inl e | Inr w' \<Rightarrow> run_handlers hs t w')"

definition hook_trigger :: "nat \<Rightarrow> handle \<Rightarrow> world \<Rightarrow> fault + world" where
  "hook_trigger k t w = run_handlers (hooks w k) t w"

section \<open>The module\<close>

text \<open>
  The arrow functions of \<^verbatim>\<open>set\<close>, \<^verbatim>\<open>to\<close>, \<^verbatim>\<open>from\<close> and \<^verbatim>\<open>fromTo\<close>:
  \<^verbatim>\<open>(el) => { if (!el) return; tween = gsap.to(el, vars); }\<close>
\<close>

definition updateFactory ::
  "kind \<Rightarrow> arg list \<Rightarrow> nat \<Rightarrow> target \<Rightarrow> world \<Rightarrow> fault + world" where
  "updateFactory k args c el w =
     (if falsy el then Inr w
      else (case gsap_tween k el args w of
              Inl e \<Rightarrow> Inl e
            | Inr (h, w') \<Rightarrow> Inr (w'\<lparr>cells := (cells w')(c := Some h)\<rparr>)))"

fun run_closure :: "closure \<Rightarrow> world \<Rightarrow> fault + world" where
  "run_closure (UpdateFn el k args c) w = updateFactory k args c (toValue el w) w"
| "run_closure (KillTween t) w = opt_member_call t Kill w"
| "run_closure (TriggerHook k t) w = hook_trigger k t w"
| "run_closure (OffFn k h) w = Inr (hook_off k h w)"

fun run_all :: "closure list \<Rightarrow> world \<Rightarrow> fault + world" where
  "run_all [] w = Inr w"
| "run_all (f # fs) w =
     (case run_closure f w of Inl e \<Rightarrow> Inl e | Inr w' \<Rightarrow> run_all fs w')"

text \<open>
  \<^verbatim>\<open>tryOnMounted(fn)\<close>: \<^verbatim>\<open>onMounted(fn)\<close> when there is a current instance, otherwise
  (\<^verbatim>\<open>sync\<close> is true by default) \<^verbatim>\<open>fn()\<close> at once.
\<close>

definition tryOnMounted :: "closure \<Rightarrow> world \<Rightarrow> fault + world" where
  "tryOnMounted fn w =
     (if has_instance w then Inr (w\<lparr>mounted_cbs := mounted_cbs w @ [fn]\<rparr>)
      else run_closure fn w)"

text \<open>
  \<^verbatim>\<open>activationFn(el, tween, updateFactory)\<close>. The second argument is passed by value:
  the closure given to \<^verbatim>\<open>tryOnScopeDispose\<close> reads the parameter, not the caller's
  variable.
\<close>

definition activationFn ::
  "target_ref \<Rightarrow> handle option \<Rightarrow> kind \<Rightarrow> arg list \<Rightarrow> nat \<Rightarrow> world \<Rightarrow> world" where
  "activationFn el tween k args c w =
     tryOnScopeDispose (KillTween tween) (watchPostEffect (UpdateFn el k args c) w)"

text \<open>\<^verbatim>\<open>let tween: gsap.core.Tween | undefined;\<close>\<close>

definition let_tween :: "world \<Rightarrow> nat \<times> world" where
  "let_tween w =
     (next_cell w, w\<lparr>cells := (cells w)(next_cell w := None), next_cell := Suc (next_cell w)\<rparr>)"

text \<open>\<^verbatim>\<open>function useGsap(plugins: object[] = [ScrollTrigger])\<close>\<close>

definition useGsap :: "plugin list option \<Rightarrow> world \<Rightarrow> world" where
  "useGsap plugins w =
     registerPlugin (case plugins of None \<Rightarrow> [ScrollTrigger] | Some ps \<Rightarrow> ps) w"

text \<open>
  The members \<^verbatim>\<open>set\<close>, \<^verbatim>\<open>fromTo\<close>, \<^verbatim>\<open>to\<close>, \<^verbatim>\<open>from\<close> of the object it returns;
  \<open>vars\<close> and \<open>options\<close> are the addresses of the objects given.
\<close>

definition useGsap_set :: "target_ref \<Rightarrow> nat \<Rightarrow> world \<Rightarrow> handle option \<times> world" where
  "useGsap_set target vars w =
     (let (tween, w1) = let_tween w;
          w2 = activationFn target (cells w1 tween) FSet [Ref vars] tween w1
      in (cells w2 tween, w2))"

definition useGsap_fromTo ::
  "target_ref \<Rightarrow> nat \<Rightarrow> world \<Rightarrow> handle option \<times> world" where
  "useGsap_fromTo target options w =
     (let (tween, w1) = let_tween w;
          w2 = activationFn target (cells w1 tween) FFromTo
                 [Prop options ''from'', Prop options ''to''] tween w1
      in (cells w2 tween, w2))"

definition useGsap_to :: "target_ref \<Rightarrow> nat \<Rightarrow> world \<Rightarrow> handle option \<times> world" where
  "useGsap_to target vars w =
     (let (tween, w1) = let_tween w;
          w2 = activationFn target (cells w1 tween) FTo [Ref vars] tween w1
      in (cells w2 tween, w2))"

definition useGsap_from :: "target_ref \<Rightarrow> nat \<Rightarrow> world \<Rightarrow> handle option \<times> world" where
  "useGsap_from target vars w =
     (let (tween, w1) = let_tween w;
          w2 = activationFn target (cells w1 tween) FFrom [Ref vars] tween w1
      in (cells w2 tween, w2))"

text \<open>
  The member \<^verbatim>\<open>timeline\<close> and the control object it returns (\<open>tl_h\<close> is its field
  \<^verbatim>\<open>tl\<close>, \<open>tlFn\<close> the hook whose \<^verbatim>\<open>on\<close> is handed out).
\<close>

record timeline_ctl =
  tl_h :: handle
  tlFn :: nat

definition new_KillArg :: "world \<Rightarrow> handler \<times> world" where
  "new_KillArg w = (KillArg (next_fn w), w\<lparr>next_fn := Suc (next_fn w)\<rparr>)"

definition useGsap_timeline :: "nat option \<Rightarrow> world \<Rightarrow> fault + (timeline_ctl \<times> world)" where
  "useGsap_timeline v w =
     (let (t, w1) = gsap_timeline v w;
          (onMount, w2) = createEventHook w1
      in case tryOnMounted (TriggerHook onMount t) w2 of
           Inl e \<Rightarrow> Inl e
         | Inr w3 \<Rightarrow>
             (let (fn, w4) = new_KillArg w3
              in Inr (\<lparr>tl_h = t, tlFn = onMount\<rparr>, hook_off onMount fn w4)))"

definition play :: "timeline_ctl \<Rightarrow> world \<Rightarrow> fault + world" where
  "play ctl w = member_call (Some (tl_h ctl)) Play w"

definition pause :: "timeline_ctl \<Rightarrow> world \<Rightarrow> fault + world" where
  "pause ctl w = member_call (Some (tl_h ctl)) Pause w"

definition restart :: "timeline_ctl \<Rightarrow> world \<Rightarrow> fault + world" where
  "restart ctl w = member_call (Some (tl_h ctl)) Restart w"

definition resume :: "timeline_ctl \<Rightarrow> world \<Rightarrow> fault + world" where
  "resume ctl w = member_call (Some (tl_h ctl)) Resume w"

definition progress :: "timeline_ctl \<Rightarrow> jsval \<Rightarrow> world \<Rightarrow> fault + world" where
  "progress ctl x w = member_call (Some (tl_h ctl)) (Progress x) w"

definition seek :: "timeline_ctl \<Rightarrow> jsval \<Rightarrow> world \<Rightarrow> fault + world" where
  "seek ctl x w = member_call (Some (tl_h ctl)) (Seek x) w"

definition isActive :: "timeline_ctl \<Rightarrow> world \<Rightarrow> fault + world" where
  "isActive ctl w = member_call (Some (tl_h ctl)) IsActive w"

section \<open>Events of the host\<close>

text \<open>
  The post flush runs the queued effects, in the order in which they were queued. What
  an effect throws ends the trace: what the host does with it is not the module's.
\<close>

definition flush :: "world \<Rightarrow> fault + world" where
  "flush w = run_all (post_queue w) (w\<lparr>post_queue := []\<rparr>)"

text \<open>
  A reactive source takes a new value: the effects that read it are queued (an effect
  already queued is not queued twice). Writing the value it already has changes nothing.
\<close>

fun reads :: "nat \<Rightarrow> closure \<Rightarrow> bool" where
  "reads r (UpdateFn (Reactive r') k args c) = (r = r')"
| "reads r f = False"

definition change :: "nat \<Rightarrow> target \<Rightarrow> world \<Rightarrow> world" where
  "change r v w =
     (if sources w r = v then w
      else w\<lparr>sources := (sources w)(r := v),
             post_queue := fold enqueue (filter (reads r) (watchers w)) (post_queue w)\<rparr>)"

text \<open>The component is mounted: the mounted callbacks run, once.\<close>

definition mount :: "world \<Rightarrow> fault + world" where
  "mount w = run_all (mounted_cbs w) (w\<lparr>mounted_cbs := []\<rparr>)"

text \<open>The scope ends: its effects are stopped and its dispose callbacks run.\<close>

definition scope_end :: "world \<Rightarrow> fault + world" where
  "scope_end w =
     run_all (disposers w)
       (w\<lparr>watchers := [], post_queue := [], disposers := [], has_scope := False\<rparr>)"

section \<open>Traces\<close>

datatype tween_call =
    CallSet target_ref nat
  | CallFromTo target_ref nat
  | CallTo target_ref nat
  | CallFrom target_ref nat

fun tween_api :: "tween_call \<Rightarrow> world \<Rightarrow> handle option \<times> world" where
  "tween_api (CallSet target v) w = useGsap_set target v w"
| "tween_api (CallFromTo target opts) w = useGsap_fromTo target opts w"
| "tween_api (CallTo target v) w = useGsap_to target v w"
| "tween_api (CallFrom target v) w = useGsap_from target v w"

fun call_kind :: "tween_call \<Rightarrow> kind" where
  "call_kind (CallSet target v) = FSet"
| "call_kind (CallFromTo target opts) = FFromTo"
| "call_kind (CallTo target v) = FTo"
| "call_kind (CallFrom target v) = FFrom"

fun call_target :: "tween_call \<Rightarrow> target_ref" where
  "call_target (CallSet target v) = target"
| "call_target (CallFromTo target opts) = target"
| "call_target (CallTo target v) = target"
| "call_target (CallFrom target v) = target"

fun call_args :: "tween_call \<Rightarrow> arg list" where
  "call_args (CallSet target v) = [Ref v]"
| "call_args (CallFromTo target opts) = [Prop opts ''from'', Prop opts ''to'']"
| "call_args (CallTo target v) = [Ref v]"
| "call_args (CallFrom target v) = [Ref v]"

datatype ctl_call = CPlay | CPause | CRestart | CResume | CProgress jsval | CSeek jsval | CIsActive

fun ctl_api :: "ctl_call \<Rightarrow> timeline_ctl \<Rightarrow> world \<Rightarrow> fault + world" where
  "ctl_api CPlay ctl w = play ctl w"
| "ctl_api CPause ctl w = pause ctl w"
| "ctl_api CRestart ctl w = restart ctl w"
| "ctl_api CResume ctl w = resume ctl w"
| "ctl_api (CProgress x) ctl w = progress ctl x w"
| "ctl_api (CSeek x) ctl w = seek ctl x w"
| "ctl_api CIsActive ctl w = isActive ctl w"

text \<open>
  What a component and the host can do, one step at a time: calls into the module, a
  subscription to a timeline's hook through \<^verbatim>\<open>tlFn\<close>, and the host's events.
\<close>

datatype op =
    UseGsap "plugin list option"
  | Tween tween_call
  | Timeline "nat option"
  | Ctl ctl_call timeline_ctl
  | TlFn nat nat
  | Change nat target
  | Flush
  | Mount
  | ScopeEnd

fun exec :: "op \<Rightarrow> world \<Rightarrow> fault + world" where
  "exec (UseGsap ps) w = Inr (useGsap ps w)"
| "exec (Tween c) w = Inr (snd (tween_api c w))"
| "exec (Timeline v) w =
     (case useGsap_timeline v w of Inl e \<Rightarrow> Inl e | Inr (ctl, w') \<Rightarrow> Inr w')"
| "exec (Ctl m ctl) w = ctl_api m ctl w"
| "exec (TlFn k n) w = Inr (hook_on k (UserFn n) w)"
| "exec (Change r v) w = Inr (change r v w)"
| "exec Flush w = flush w"
| "exec Mount w = mount w"
| "exec ScopeEnd w = scope_end w"

fun execs :: "op list \<Rightarrow> world \<Rightarrow> fault + world" where
  "execs [] w = Inr w"
| "execs (x # xs) w = (case exec x w of Inl e \<Rightarrow> Inl e | Inr w' \<Rightarrow> execs xs w')"

section \<open>Preset resolution\<close>

text \<open>
  \<^verbatim>\<open>src/runtime/baked/types.ts\<close> declares the argument of the preset composable:
  \<^verbatim>\<open>animationOptions\<close>, the preset, and the optional \<^verbatim>\<open>tweenValues\<close>.
\<close>

record 'p UseBakedAnimationOptions =
  animationOptions :: 'p
  tweenValues :: "vars option"

text \<open>
  Modelled from the spec: the function that resolves a preset is not among the sources
  (only the type of its argument is). \<open>assign\<close> is one field replacement, "override field
  wins if both preset and override define it": the field keeps its place and takes the
  new value whole; a field the object does not have is added at the end.
\<close>

fun assign :: "string \<times> jsval \<Rightarrow> vars \<Rightarrow> vars" where
  "assign (k, v) [] = [(k, v)]"
| "assign (k, v) ((k', v') # rest) =
     (if k = k' then (k, v) # rest else (k', v') # assign (k, v) rest)"

text \<open>
  Modelled from the spec: "merge semantics are shallow field replacement ..., consistent
  with standard options-merging conventions, not a deep/recursive merge".
\<close>

definition merge_vars :: "vars \<Rightarrow> vars \<Rightarrow> vars" where
  "merge_vars defaults overrides = fold assign overrides defaults"

text \<open>
  Modelled from the spec: "Overrides, when present, are merged on top of the preset's
  defaults before being handed to the engine". The registry of presets is generated at
  build time and is a parameter.
\<close>

definition resolve_preset :: "('p \<Rightarrow> vars) \<Rightarrow> 'p UseBakedAnimationOptions \<Rightarrow> vars" where
  "resolve_preset registry opts =
     (case tweenValues opts of
        None \<Rightarrow> registry (animationOptions opts)
      | Some overrides \<Rightarrow> merge_vars (registry (animationOptions opts)) overrides)"

section \<open>What the module leaves registered\<close>

text \<open>
  The callbacks the module itself registers with the host are of few shapes: a scope
  dispose callback is \<^verbatim>\<open>() => tween?.kill()\<close> over an undefined \<open>tween\<close> or the
  removal of a hook handler, a mounted callback triggers a hook, an effect is an update
  function, and a hook holds handlers of the caller only. \<open>module_only\<close> says so of a
  state; \<open>kills\<close> are the \<^verbatim>\<open>kill()\<close> calls the engine has received.
\<close>

fun harmless :: "closure \<Rightarrow> bool" where
  "harmless (KillTween t) = (t = None)"
| "harmless (OffFn k h) = True"
| "harmless f = False"

fun is_update :: "closure \<Rightarrow> bool" where
  "is_update (UpdateFn el k args c) = True"
| "is_update f = False"

fun is_trigger :: "closure \<Rightarrow> bool" where
  "is_trigger (TriggerHook k t) = True"
| "is_trigger f = False"

fun is_user :: "handler \<Rightarrow> bool" where
  "is_user (UserFn n) = True"
| "is_user (KillArg i) = False"

fun is_kill :: "event \<Rightarrow> bool" where
  "is_kill (Call h m) = (m = Kill)"
| "is_kill e = False"

fun is_call :: "event \<Rightarrow> bool" where
  "is_call (Call h m) = True"
| "is_call e = False"

definition module_only :: "world \<Rightarrow> bool" where
  "module_only w \<longleftrightarrow>
     (\<forall>f\<in>set (disposers w). harmless f) \<and>
     (\<forall>k. \<forall>h\<in>set (hooks w k). is_user h) \<and>
     (\<forall>f\<in>set (mounted_cbs w). is_trigger f) \<and>
     (\<forall>f\<in>set (watchers w). is_update f) \<and>
     (\<forall>f\<in>set (post_queue w). is_update f)"

definition kills :: "world \<Rightarrow> event list" where
  "kills w = filter is_kill (log w)"

text \<open>
  \<open>writes c f\<close>: the closure \<open>f\<close> is the update function of the binding whose variable
  \<^verbatim>\<open>let tween\<close> is \<open>c\<close>. In a state the component can reach every binding has a variable
  of its own, allocated before the state's next one, the queue holds registered effects
  only, each once, and a variable holds a handle the engine has returned.
\<close>

fun writes :: "nat \<Rightarrow> closure \<Rightarrow> bool" where
  "writes c (UpdateFn el k args c') = (c' = c)"
| "writes c f = False"

definition bindings_ok :: "world \<Rightarrow> bool" where
  "bindings_ok w \<longleftrightarrow>
     distinct (post_queue w) \<and>
     set (post_queue w) \<subseteq> set (watchers w) \<and>
     (\<forall>f\<in>set (watchers w). \<forall>c. writes c f \<longrightarrow> c < next_cell w) \<and>
     (\<forall>f\<in>set (watchers w). \<forall>g\<in>set (watchers w). \<forall>c. writes c f \<and> writes c g \<longrightarrow> f = g) \<and>
     (\<forall>c h. cells w c = Some h \<longrightarrow> h < next_handle w)"

text \<open>
  \<open>engine_only fs w w'\<close>: the state \<open>w'\<close> differs from \<open>w\<close> by what runs of the update
  functions \<open>fs\<close> can do and no more: creations appended to the log, handles taken from
  the engine, and the variables of those bindings assigned.
\<close>

definition engine_only :: "closure list \<Rightarrow> world \<Rightarrow> world \<Rightarrow> bool" where
  "engine_only fs w w' \<longleftrightarrow>
     (\<exists>evs n cs. w' = w\<lparr>log := log w @ evs, next_handle := n, cells := cs\<rparr> \<and>
        filter is_call evs = [] \<and> next_handle w \<le> n \<and>
        (\<forall>c. (\<forall>f\<in>set fs. \<not> writes c f) \<longrightarrow> cs c = cells w c) \<and>
        (\<forall>c h. cs c = Some h \<longrightarrow> cells w c = Some h \<or> h < n))"

text \<open>The engine member behind each function of the control object.\<close>

fun ctl_member :: "ctl_call \<Rightarrow> member" where
  "ctl_member CPlay = Play"
| "ctl_member CPause = Pause"
| "ctl_member CRestart = Restart"
| "ctl_member CResume = Resume"
| "ctl_member (CProgress x) = Progress x"
| "ctl_member (CSeek x) = Seek x"
| "ctl_member CIsActive = IsActive"

text \<open>
  \<open>quiet r x\<close>: the step \<open>x\<close> neither ends the scope nor gives the reactive source \<open>r\<close> a
  present value.
\<close>

fun quiet :: "nat \<Rightarrow> op \<Rightarrow> bool" where
  "quiet r (Change r' v) = (r' = r \<longrightarrow> falsy v)"
| "quiet r ScopeEnd = False"
| "quiet r x = True"

section \<open>Runs of the registered callbacks\<close>

lemma module_only_init: "module_only (init thr)"
  by (simp add: module_only_def init_def)

lemma bindings_ok_init: "bindings_ok (init thr)"
  by (simp add: bindings_ok_def init_def)

lemma is_kill_is_call: "is_kill e \<Longrightarrow> is_call e"
  by (cases e) simp_all

lemma no_call_no_kill: "filter is_call evs = [] \<Longrightarrow> filter is_kill evs = []"
  by (auto simp: filter_empty_conv dest: is_kill_is_call)

lemma run_handlers_user:
  "\<forall>h\<in>set hs. is_user h \<Longrightarrow>
   \<exists>evs. run_handlers hs t w = Inr (w\<lparr>log := log w @ evs\<rparr>) \<and> filter is_kill evs = []"
proof (induction hs arbitrary: w)
  case Nil
  show ?case by (intro exI[of _ "[]"]) simp
next
  case (Cons h hs)
  then obtain n where h: "h = UserFn n" by (cases h) auto
  from Cons obtain evs where
    "run_handlers hs t (w\<lparr>log := log w @ [Notified n t]\<rparr>) =
       Inr (w\<lparr>log := log w @ [Notified n t]\<rparr>\<lparr>log := log (w\<lparr>log := log w @ [Notified n t]\<rparr>) @ evs\<rparr>)"
    and "filter is_kill evs = []"
    by (metis list.set_intros(2))
  then show ?case using h
    by (intro exI[of _ "Notified n t # evs"]) simp
qed

lemma run_update_cases:
  "run_closure (UpdateFn el k args c) w =
     (if falsy (toValue el w) then Inr w
      else if engine_throws w k (toValue el w) args
           then Inl (EngineError k (toValue el w) args)
           else Inr (w\<lparr>log := log w @ [TweenCreate k (toValue el w) args (next_handle w)],
                       next_handle := Suc (next_handle w),
                       cells := (cells w)(c := Some (next_handle w))\<rparr>))"
  by (simp add: updateFactory_def gsap_tween_def)

lemma engine_only_refl: "engine_only fs w w"
  unfolding engine_only_def
  by (intro exI[of _ "[]"] exI[of _ "next_handle w"] exI[of _ "cells w"]) simp

lemma engine_only_trans:
  assumes "engine_only fs w w1" and "engine_only gs w1 w2"
  shows "engine_only (fs @ gs) w w2"
proof -
  from assms(1) obtain e1 n1 c1 where
    1: "w1 = w\<lparr>log := log w @ e1, next_handle := n1, cells := c1\<rparr>"
    and a1: "filter is_call e1 = []" "next_handle w \<le> n1"
      "\<forall>c. (\<forall>f\<in>set fs. \<not> writes c f) \<longrightarrow> c1 c = cells w c"
      "\<forall>c h. c1 c = Some h \<longrightarrow> cells w c = Some h \<or> h < n1"
    unfolding engine_only_def by blast
  from assms(2) obtain e2 n2 c2 where
    2: "w2 = w1\<lparr>log := log w1 @ e2, next_handle := n2, cells := c2\<rparr>"
    and a2: "filter is_call e2 = []" "next_handle w1 \<le> n2"
      "\<forall>c. (\<forall>f\<in>set gs. \<not> writes c f) \<longrightarrow> c2 c = cells w1 c"
      "\<forall>c h. c2 c = Some h \<longrightarrow> cells w1 c = Some h \<or> h < n2"
    unfolding engine_only_def by blast
  have n: "n1 \<le> n2" using a2(2) 1 by simp
  have "w2 = w\<lparr>log := log w @ (e1 @ e2), next_handle := n2, cells := c2\<rparr>"
    using 1 2 by simp
  moreover have "filter is_call (e1 @ e2) = []" using a1(1) a2(1) by simp
  moreover have "next_handle w \<le> n2" using a1(2) n by simp
  moreover have "\<forall>c. (\<forall>f\<in>set (fs @ gs). \<not> writes c f) \<longrightarrow> c2 c = cells w c"
    using a1(3) a2(3) 1 by simp
  moreover have "\<forall>c h. c2 c = Some h \<longrightarrow> cells w c = Some h \<or> h < n2"
  proof (intro allI impI)
    fix c h assume "c2 c = Some h"
    with a2(4) have "cells w1 c = Some h \<or> h < n2" by blast
    then show "cells w c = Some h \<or> h < n2"
    proof
      assume "cells w1 c = Some h"
      then have "c1 c = Some h" using 1 by simp
      with a1(4) have "cells w c = Some h \<or> h < n1" by blast
      then show ?thesis using n by auto
    qed simp
  qed
  ultimately show ?thesis unfolding engine_only_def by blast
qed

lemma run_update_engine_only:
  assumes "is_update f" and "run_closure f w = Inr w'"
  shows "engine_only [f] w w'"
proof -
  from assms(1) obtain el k args c where f: "f = UpdateFn el k args c" by (cases f) auto
  show ?thesis
  proof (cases "falsy (toValue el w)")
    case True
    with assms(2) f run_update_cases[of el k args c w] have "w' = w" by simp
    then show ?thesis by (simp add: engine_only_refl)
  next
    case False
    with assms(2) f run_update_cases[of el k args c w] have
      "w' = w\<lparr>log := log w @ [TweenCreate k (toValue el w) args (next_handle w)],
               next_handle := Suc (next_handle w),
               cells := (cells w)(c := Some (next_handle w))\<rparr>"
      by (simp split: if_splits)
    then show ?thesis unfolding engine_only_def using f
      by (intro exI[of _ "[TweenCreate k (toValue el w) args (next_handle w)]"]
            exI[of _ "Suc (next_handle w)"] exI[of _ "(cells w)(c := Some (next_handle w))"])
         auto
  qed
qed

lemma run_all_engine_only:
  assumes "\<forall>f\<in>set fs. is_update f" and "run_all fs w = Inr w'"
  shows "engine_only fs w w'"
  using assms
proof (induction fs arbitrary: w)
  case Nil
  then show ?case by (simp add: engine_only_refl)
next
  case (Cons f fs)
  from Cons.prems(2) obtain w1 where 1: "run_closure f w = Inr w1" and 2: "run_all fs w1 = Inr w'"
    by (auto split: sum.splits)
  have "engine_only [f] w w1" using Cons.prems(1) 1 by (intro run_update_engine_only) simp_all
  moreover have "engine_only fs w1 w'" using Cons.prems(1) 2 by (intro Cons.IH) simp_all
  ultimately show ?case using engine_only_trans[of "[f]" w w1 fs w'] by simp
qed

lemma engine_only_fields:
  assumes "engine_only fs w w'"
  shows "watchers w' = watchers w" "post_queue w' = post_queue w" "sources w' = sources w"
    "disposers w' = disposers w" "hooks w' = hooks w" "mounted_cbs w' = mounted_cbs w"
    "next_cell w' = next_cell w" "engine_throws w' = engine_throws w"
    "has_scope w' = has_scope w" "has_instance w' = has_instance w"
    "next_handle w \<le> next_handle w'"
    "\<exists>evs. log w' = log w @ evs \<and> filter is_call evs = []"
    "\<forall>c. (\<forall>f\<in>set fs. \<not> writes c f) \<longrightarrow> cells w' c = cells w c"
    "\<forall>c h. cells w' c = Some h \<longrightarrow> cells w c = Some h \<or> h < next_handle w'"
proof -
  from assms obtain evs n cs where
    1: "w' = w\<lparr>log := log w @ evs, next_handle := n, cells := cs\<rparr>"
    and a: "filter is_call evs = []" "next_handle w \<le> n"
      "\<forall>c. (\<forall>f\<in>set fs. \<not> writes c f) \<longrightarrow> cs c = cells w c"
      "\<forall>c h. cs c = Some h \<longrightarrow> cells w c = Some h \<or> h < n"
    unfolding engine_only_def by blast
  show "watchers w' = watchers w" "post_queue w' = post_queue w" "sources w' = sources w"
    "disposers w' = disposers w" "hooks w' = hooks w" "mounted_cbs w' = mounted_cbs w"
    "next_cell w' = next_cell w" "engine_throws w' = engine_throws w"
    "has_scope w' = has_scope w" "has_instance w' = has_instance w"
    using 1 by simp_all
  show "next_handle w \<le> next_handle w'" using 1 a(2) by simp
  show "\<exists>evs. log w' = log w @ evs \<and> filter is_call evs = []" using 1 a(1) by simp
  show "\<forall>c. (\<forall>f\<in>set fs. \<not> writes c f) \<longrightarrow> cells w' c = cells w c" using 1 a(3) by simp
  show "\<forall>c h. cells w' c = Some h \<longrightarrow> cells w c = Some h \<or> h < next_handle w'"
    using 1 a(4) by simp
qed

lemma engine_only_module_only:
  "engine_only fs w w' \<Longrightarrow> module_only w \<Longrightarrow> module_only w'"
  by (simp add: module_only_def engine_only_fields)

lemma engine_only_kills: "engine_only fs w w' \<Longrightarrow> kills w' = kills w"
  using engine_only_fields(12)[of fs w w'] by (auto simp: kills_def dest: no_call_no_kill)

lemma engine_only_bindings_ok:
  assumes "engine_only fs w w'" and "bindings_ok w"
  shows "bindings_ok w'"
proof -
  note f = engine_only_fields[OF assms(1)]
  have "\<forall>c h. cells w' c = Some h \<longrightarrow> h < next_handle w'"
  proof (intro allI impI)
    fix c h assume "cells w' c = Some h"
    with f(14) have "cells w c = Some h \<or> h < next_handle w'" by blast
    moreover have "cells w c = Some h \<Longrightarrow> h < next_handle w"
      using assms(2) unfolding bindings_ok_def by blast
    ultimately show "h < next_handle w'"
      using f(11) by auto
  qed
  then show ?thesis using assms(2) by (simp add: bindings_ok_def f)
qed

lemma run_all_harmless:
  "\<forall>f\<in>set fs. harmless f \<Longrightarrow>
   \<exists>hs. run_all fs w = Inr (w\<lparr>hooks := hs\<rparr>) \<and> (\<forall>k. set (hs k) \<subseteq> set (hooks w k))"
proof (induction fs arbitrary: w)
  case Nil
  show ?case by (intro exI[of _ "hooks w"]) simp
next
  case (Cons f fs)
  then have hf: "harmless f" and rest: "\<forall>f\<in>set fs. harmless f" by simp_all
  from hf have "\<exists>h1. run_closure f w = Inr (w\<lparr>hooks := h1\<rparr>) \<and> (\<forall>k. set (h1 k) \<subseteq> set (hooks w k))"
  proof (cases f)
    case (KillTween t)
    with hf show ?thesis by (intro exI[of _ "hooks w"]) simp
  next
    case (OffFn k h)
    then show ?thesis
      by (intro exI[of _ "(hooks w)(k := removeAll h (hooks w k))"]) (auto simp: hook_off_def)
  qed simp_all
  then obtain h1 where 1: "run_closure f w = Inr (w\<lparr>hooks := h1\<rparr>)"
    and s1: "\<forall>k. set (h1 k) \<subseteq> set (hooks w k)" by blast
  from Cons.IH[OF rest, of "w\<lparr>hooks := h1\<rparr>"] obtain h2 where
    2: "run_all fs (w\<lparr>hooks := h1\<rparr>) = Inr (w\<lparr>hooks := h1\<rparr>\<lparr>hooks := h2\<rparr>)"
    and s2: "\<forall>k. set (h2 k) \<subseteq> set (hooks (w\<lparr>hooks := h1\<rparr>) k)" by blast
  have "run_all (f # fs) w = Inr (w\<lparr>hooks := h2\<rparr>)" using 1 2 by simp
  moreover have "\<forall>k. set (h2 k) \<subseteq> set (hooks w k)" using s1 s2 by auto
  ultimately show ?case by blast
qed

lemma run_all_triggers:
  "\<forall>f\<in>set fs. is_trigger f \<Longrightarrow> \<forall>k. \<forall>h\<in>set (hooks w k). is_user h \<Longrightarrow>
   \<exists>evs. run_all fs w = Inr (w\<lparr>log := log w @ evs\<rparr>) \<and> filter is_kill evs = []"
proof (induction fs arbitrary: w)
  case Nil
  have "run_all [] w = Inr (w\<lparr>log := log w @ []\<rparr>)" by simp
  then show ?case by (metis filter.simps(1))
next
  case (Cons f fs)
  then obtain k t where f: "f = TriggerHook k t" by (cases f) auto
  from Cons.prems(2) have "\<forall>h\<in>set (hooks w k). is_user h" by blast
  from run_handlers_user[OF this, of t w] obtain e1 where
    1: "run_handlers (hooks w k) t w = Inr (w\<lparr>log := log w @ e1\<rparr>)"
    and k1: "filter is_kill e1 = []" by blast
  let ?w1 = "w\<lparr>log := log w @ e1\<rparr>"
  have "\<forall>f\<in>set fs. is_trigger f" using Cons.prems(1) by simp
  moreover have "\<forall>k. \<forall>h\<in>set (hooks ?w1 k). is_user h" using Cons.prems(2) by simp
  ultimately obtain e2 where
    2: "run_all fs ?w1 = Inr (?w1\<lparr>log := log ?w1 @ e2\<rparr>)" and k2: "filter is_kill e2 = []"
    using Cons.IH[of ?w1] by blast
  have "run_all (f # fs) w = Inr (w\<lparr>log := log w @ (e1 @ e2)\<rparr>)"
    using f 1 2 by (simp add: hook_trigger_def)
  moreover have "filter is_kill (e1 @ e2) = []" using k1 k2 by simp
  ultimately show ?case by blast
qed

lemma tween_api_result:
  "tween_api c w =
     (None,
      w\<lparr>cells := (cells w)(next_cell w := None), next_cell := Suc (next_cell w),
        watchers := watchers w @ [UpdateFn (call_target c) (call_kind c) (call_args c) (next_cell w)],
        post_queue := enqueue (UpdateFn (call_target c) (call_kind c) (call_args c) (next_cell w))
                        (post_queue w),
        disposers := (if has_scope w then disposers w @ [KillTween None] else disposers w)\<rparr>)"
  by (cases c)
     (simp_all add: useGsap_set_def useGsap_fromTo_def useGsap_to_def useGsap_from_def
        let_tween_def activationFn_def tryOnScopeDispose_def watchPostEffect_def)

lemma timeline_result:
  "useGsap_timeline v w =
     Inr (\<lparr>tl_h = next_handle w, tlFn = next_hook w\<rparr>,
          w\<lparr>log := log w @ [TimelineCreate v (next_handle w)],
            next_handle := Suc (next_handle w),
            hooks := (hooks w)(next_hook w := []),
            next_hook := Suc (next_hook w),
            mounted_cbs := (if has_instance w
                            then mounted_cbs w @ [TriggerHook (next_hook w) (next_handle w)]
                            else mounted_cbs w),
            next_fn := Suc (next_fn w)\<rparr>)"
  by (simp add: useGsap_timeline_def gsap_timeline_def createEventHook_def tryOnMounted_def
        new_KillArg_def hook_off_def hook_trigger_def)

lemma ctl_member_not_Kill: "ctl_member x \<noteq> Kill"
  by (cases x) simp_all

lemma ctl_api_result:
  "ctl_api x ctl w = Inr (w\<lparr>log := log w @ [Call (tl_h ctl) (ctl_member x)]\<rparr>)"
  by (cases x)
     (simp_all add: play_def pause_def restart_def resume_def progress_def seek_def isActive_def)

lemma set_enqueue: "set (enqueue f q) = insert f (set q)"
  by (auto simp: enqueue_def)

lemma distinct_enqueue: "distinct q \<Longrightarrow> distinct (enqueue f q)"
  by (simp add: enqueue_def)

lemma set_fold_enqueue: "set (fold enqueue fs q) = set fs \<union> set q"
  by (induction fs arbitrary: q) (auto simp: set_enqueue)

lemma distinct_fold_enqueue: "distinct q \<Longrightarrow> distinct (fold enqueue fs q)"
  by (induction fs arbitrary: q) (simp_all add: distinct_enqueue)

section \<open>Invariants of the reachable states\<close>

lemma tween_keeps_invariants:
  assumes "module_only w" and "bindings_ok w"
  shows "module_only (snd (tween_api c w))" and "bindings_ok (snd (tween_api c w))"
    and "kills (snd (tween_api c w)) = kills w"
proof -
  let ?u = "UpdateFn (call_target c) (call_kind c) (call_args c) (next_cell w)"
  show "module_only (snd (tween_api c w))"
    using assms(1) by (auto simp: tween_api_result module_only_def set_enqueue)
  show "kills (snd (tween_api c w)) = kills w"
    by (simp add: tween_api_result kills_def)
  have d: "distinct (enqueue ?u (post_queue w))"
    using assms(2) by (simp add: bindings_ok_def distinct_enqueue)
  have s: "set (enqueue ?u (post_queue w)) \<subseteq> set (watchers w @ [?u])"
    using assms(2) by (auto simp: bindings_ok_def set_enqueue)
  have b: "\<forall>f\<in>set (watchers w @ [?u]). \<forall>c. writes c f \<longrightarrow> c < Suc (next_cell w)"
    using assms(2) by (auto simp: bindings_ok_def less_Suc_eq)
  have old: "\<And>f c. f \<in> set (watchers w) \<Longrightarrow> writes c f \<Longrightarrow> c < next_cell w"
    using assms(2) unfolding bindings_ok_def by blast
  have u: "\<forall>f\<in>set (watchers w @ [?u]). \<forall>g\<in>set (watchers w @ [?u]). \<forall>c.
             writes c f \<and> writes c g \<longrightarrow> f = g"
  proof (intro ballI allI impI)
    fix f g c assume f: "f \<in> set (watchers w @ [?u])" and g: "g \<in> set (watchers w @ [?u])"
      and wr: "writes c f \<and> writes c g"
    show "f = g"
    proof (cases "f = ?u")
      case True
      then have c: "c = next_cell w" using wr by simp
      show ?thesis
      proof (cases "g = ?u")
        case False
        then have "g \<in> set (watchers w)" using g by simp
        from old[OF this, of c] wr c show ?thesis by simp
      qed (simp add: True)
    next
      case False
      then have fw: "f \<in> set (watchers w)" using f by simp
      show ?thesis
      proof (cases "g = ?u")
        case True
        then have "c = next_cell w" using wr by simp
        with old[OF fw, of c] wr show ?thesis by simp
      next
        case False
        then have "g \<in> set (watchers w)" using g by simp
        with fw wr assms(2) show ?thesis unfolding bindings_ok_def by blast
      qed
    qed
  qed
  have h: "\<forall>c h. ((cells w)(next_cell w := None)) c = Some h \<longrightarrow> h < next_handle w"
    using assms(2) by (auto simp: bindings_ok_def)
  show "bindings_ok (snd (tween_api c w))"
    unfolding bindings_ok_def using d s b u h by (simp add: tween_api_result)
qed

lemma bindings_ok_frame:
  assumes "bindings_ok w" and "post_queue w' = post_queue w" and "watchers w' = watchers w"
    and "next_cell w' = next_cell w" and "cells w' = cells w"
    and "next_handle w \<le> next_handle w'"
  shows "bindings_ok w'"
proof -
  have "\<forall>c h. cells w' c = Some h \<longrightarrow> h < next_handle w'"
  proof (intro allI impI)
    fix c h assume "cells w' c = Some h"
    then have "cells w c = Some h" using assms(5) by simp
    then have "h < next_handle w" using assms(1) unfolding bindings_ok_def by blast
    then show "h < next_handle w'" using assms(6) by simp
  qed
  then show ?thesis using assms(1-4) by (simp add: bindings_ok_def)
qed

lemma module_only_frame:
  assumes "module_only w" and "disposers w' = disposers w" and "hooks w' = hooks w"
    and "mounted_cbs w' = mounted_cbs w" and "watchers w' = watchers w"
    and "post_queue w' = post_queue w"
  shows "module_only w'"
  using assms by (simp add: module_only_def)

lemma exec_invariants:
  assumes "module_only w" and "bindings_ok w" and "exec x w = Inr w'"
  shows "module_only w' \<and> bindings_ok w' \<and> kills w' = kills w"
proof (cases x)
  case (UseGsap ps)
  then have w': "w' = w\<lparr>log := log w @
      [RegisterPlugin (case ps of None \<Rightarrow> [ScrollTrigger] | Some ps \<Rightarrow> ps)]\<rparr>"
    using assms(3) by (simp add: useGsap_def registerPlugin_def)
  have "module_only w'" by (rule module_only_frame[OF assms(1)]) (simp_all add: w')
  moreover have "bindings_ok w'" by (rule bindings_ok_frame[OF assms(2)]) (simp_all add: w')
  moreover have "kills w' = kills w" by (simp add: w' kills_def)
  ultimately show ?thesis by simp
next
  case (Tween c)
  with assms tween_keeps_invariants[OF assms(1,2), of c] show ?thesis by auto
next
  case (Timeline v)
  then have w': "w' = w\<lparr>log := log w @ [TimelineCreate v (next_handle w)],
            next_handle := Suc (next_handle w),
            hooks := (hooks w)(next_hook w := []),
            next_hook := Suc (next_hook w),
            mounted_cbs := (if has_instance w
                            then mounted_cbs w @ [TriggerHook (next_hook w) (next_handle w)]
                            else mounted_cbs w),
            next_fn := Suc (next_fn w)\<rparr>"
    using assms(3) by (simp add: timeline_result)
  have "module_only w'" using assms(1) by (auto simp: w' module_only_def)
  moreover have "bindings_ok w'" by (rule bindings_ok_frame[OF assms(2)]) (simp_all add: w')
  moreover have "kills w' = kills w" by (simp add: w' kills_def)
  ultimately show ?thesis by simp
next
  case (Ctl m ctl)
  then have w': "w' = w\<lparr>log := log w @ [Call (tl_h ctl) (ctl_member m)]\<rparr>"
    using assms(3) by (simp add: ctl_api_result)
  have "module_only w'" by (rule module_only_frame[OF assms(1)]) (simp_all add: w')
  moreover have "bindings_ok w'" by (rule bindings_ok_frame[OF assms(2)]) (simp_all add: w')
  moreover have "kills w' = kills w" by (simp add: w' kills_def ctl_member_not_Kill)
  ultimately show ?thesis by simp
next
  case (TlFn k n)
  then have w': "w' = hook_on k (UserFn n) w" using assms(3) by simp
  have "module_only w'" using assms(1)
    by (auto simp: w' hook_on_def tryOnScopeDispose_def module_only_def)
  moreover have "bindings_ok w'"
    by (rule bindings_ok_frame[OF assms(2)]) (simp_all add: w' hook_on_def tryOnScopeDispose_def)
  moreover have "kills w' = kills w"
    by (simp add: w' kills_def hook_on_def tryOnScopeDispose_def)
  ultimately show ?thesis by simp
next
  case (Change r v)
  show ?thesis
  proof (cases "sources w r = v")
    case True
    with assms Change show ?thesis by (simp add: change_def)
  next
    case False
    then have w': "w' = w\<lparr>sources := (sources w)(r := v),
        post_queue := fold enqueue (filter (reads r) (watchers w)) (post_queue w)\<rparr>"
      using assms(3) Change by (simp add: change_def)
    have "module_only w'" using assms(1)
      by (auto simp: w' module_only_def set_fold_enqueue)
    moreover have "bindings_ok w'" using assms(2)
      by (auto simp: w' bindings_ok_def set_fold_enqueue distinct_fold_enqueue)
    moreover have "kills w' = kills w" by (simp add: w' kills_def)
    ultimately show ?thesis by simp
  qed
next
  case Flush
  let ?w0 = "w\<lparr>post_queue := []\<rparr>"
  have u: "\<forall>f\<in>set (post_queue w). is_update f" using assms(1) by (simp add: module_only_def)
  have r: "run_all (post_queue w) ?w0 = Inr w'" using assms(3) Flush by (simp add: flush_def)
  have e: "engine_only (post_queue w) ?w0 w'" by (rule run_all_engine_only[OF u r])
  have "module_only ?w0" using assms(1) by (simp add: module_only_def)
  moreover have "bindings_ok ?w0" using assms(2) by (simp add: bindings_ok_def)
  moreover have "kills ?w0 = kills w" by (simp add: kills_def)
  ultimately show ?thesis
    using engine_only_module_only[OF e] engine_only_bindings_ok[OF e] engine_only_kills[OF e]
    by simp
next
  case Mount
  have "\<forall>f\<in>set (mounted_cbs w). is_trigger f"
    and "\<forall>k. \<forall>h\<in>set (hooks (w\<lparr>mounted_cbs := []\<rparr>) k). is_user h"
    using assms(1) by (simp_all add: module_only_def)
  from run_all_triggers[OF this] obtain evs where
    "run_all (mounted_cbs w) (w\<lparr>mounted_cbs := []\<rparr>) =
       Inr (w\<lparr>mounted_cbs := []\<rparr>\<lparr>log := log (w\<lparr>mounted_cbs := []\<rparr>) @ evs\<rparr>)"
    "filter is_kill evs = []" by blast
  then have w': "w' = w\<lparr>mounted_cbs := [], log := log w @ evs\<rparr>" and k: "filter is_kill evs = []"
    using assms(3) Mount by (simp_all add: mount_def)
  have "module_only w'" using assms(1) by (simp add: w' module_only_def)
  moreover have "bindings_ok w'" by (rule bindings_ok_frame[OF assms(2)]) (simp_all add: w')
  moreover have "kills w' = kills w" using k by (simp add: w' kills_def)
  ultimately show ?thesis by simp
next
  case ScopeEnd
  let ?w0 = "w\<lparr>watchers := [], post_queue := [], disposers := [], has_scope := False\<rparr>"
  have "\<forall>f\<in>set (disposers w). harmless f" using assms(1) by (simp add: module_only_def)
  from run_all_harmless[OF this, of ?w0] obtain hs where
    r: "run_all (disposers w) ?w0 = Inr (?w0\<lparr>hooks := hs\<rparr>)"
    and s: "\<forall>k. set (hs k) \<subseteq> set (hooks ?w0 k)" by blast
  then have w': "w' = ?w0\<lparr>hooks := hs\<rparr>" using assms(3) ScopeEnd by (simp add: scope_end_def)
  have "\<forall>k. \<forall>h\<in>set (hs k). is_user h"
  proof (intro allI ballI)
    fix k h assume "h \<in> set (hs k)"
    with s have "h \<in> set (hooks w k)" by auto
    then show "is_user h" using assms(1) unfolding module_only_def by blast
  qed
  then have "module_only w'" using assms(1) unfolding w' module_only_def by simp
  moreover have "bindings_ok w'" using assms(2) unfolding w' bindings_ok_def by simp
  moreover have "kills w' = kills w" by (simp add: w' kills_def)
  ultimately show ?thesis by simp
qed

lemma execs_invariants:
  "module_only w \<Longrightarrow> bindings_ok w \<Longrightarrow> execs xs w = Inr w' \<Longrightarrow>
   module_only w' \<and> bindings_ok w' \<and> kills w' = kills w"
proof (induction xs arbitrary: w)
  case Nil
  then show ?case by simp
next
  case (Cons x xs)
  from Cons.prems(3) obtain w1 where 1: "exec x w = Inr w1" and 2: "execs xs w1 = Inr w'"
    by (auto split: sum.splits)
  from exec_invariants[OF Cons.prems(1,2) 1] Cons.IH[OF _ _ 2] show ?case by simp
qed

lemma execs_append:
  "execs (xs @ ys) w = (case execs xs w of Inl e \<Rightarrow> Inl e | Inr w' \<Rightarrow> execs ys w')"
  by (induction xs arbitrary: w) (simp_all split: sum.splits)

lemma run_all_append:
  "run_all (fs @ gs) w = (case run_all fs w of Inl e \<Rightarrow> Inl e | Inr w' \<Rightarrow> run_all gs w')"
  by (induction fs arbitrary: w) (simp_all split: sum.splits)

lemma reachable_invariants:
  assumes "execs xs (init thr) = Inr w"
  shows "module_only w" and "bindings_ok w" and "kills w = []"
  using execs_invariants[OF module_only_init bindings_ok_init assms]
  by (simp_all add: kills_def init_def)

lemma scope_end_silent:
  assumes "module_only w"
  shows "\<exists>w'. scope_end w = Inr w' \<and> log w' = log w"
proof -
  let ?w0 = "w\<lparr>watchers := [], post_queue := [], disposers := [], has_scope := False\<rparr>"
  have "\<forall>f\<in>set (disposers w). harmless f" using assms by (simp add: module_only_def)
  from run_all_harmless[OF this, of ?w0] show ?thesis
    by (auto simp: scope_end_def)
qed

section \<open>One binding among the others\<close>

lemma new_binding_not_registered:
  assumes "bindings_ok w"
  shows "UpdateFn el k args (next_cell w) \<notin> set (watchers w)"
    and "UpdateFn el k args (next_cell w) \<notin> set (post_queue w)"
proof -
  show 1: "UpdateFn el k args (next_cell w) \<notin> set (watchers w)"
  proof
    assume "UpdateFn el k args (next_cell w) \<in> set (watchers w)"
    moreover have "writes (next_cell w) (UpdateFn el k args (next_cell w))" by simp
    ultimately have "next_cell w < next_cell w" using assms unfolding bindings_ok_def by blast
    then show False by simp
  qed
  show "UpdateFn el k args (next_cell w) \<notin> set (post_queue w)"
    using 1 assms unfolding bindings_ok_def by blast
qed

lemma split_distinct:
  assumes "distinct q" and "u \<in> set q"
  shows "\<exists>q1 q2. q = q1 @ u # q2 \<and> u \<notin> set q1 \<and> u \<notin> set q2"
proof -
  from split_list[OF assms(2)] obtain q1 q2 where q: "q = q1 @ u # q2" by blast
  with assms(1) have "u \<notin> set q1" "u \<notin> set q2" by auto
  with q show ?thesis by blast
qed

lemma others_do_not_write:
  assumes "bindings_ok w" and "u \<in> set (watchers w)" and "writes c u"
    and "set fs \<subseteq> set (watchers w)" and "u \<notin> set fs"
  shows "\<forall>f\<in>set fs. \<not> writes c f"
proof
  fix f assume f: "f \<in> set fs"
  show "\<not> writes c f"
  proof
    assume "writes c f"
    moreover have "f \<in> set (watchers w)" using f assms(4) by auto
    ultimately have "f = u" using assms(1,2,3) unfolding bindings_ok_def by blast
    with f assms(5) show False by simp
  qed
qed

lemma tick_runs_binding_once:
  assumes "module_only w" and "bindings_ok w"
    and "UpdateFn (Reactive r) k args c \<in> set (watchers w)"
    and "sources w r \<noteq> v" and "\<not> falsy v"
  shows "\<exists>q1 q2. post_queue (change r v w) = q1 @ UpdateFn (Reactive r) k args c # q2 \<and>
           UpdateFn (Reactive r) k args c \<notin> set q1 \<and> UpdateFn (Reactive r) k args c \<notin> set q2 \<and>
           (\<forall>wa. run_all q1 ((change r v w)\<lparr>post_queue := []\<rparr>) = Inr wa \<longrightarrow>
              cells wa c = cells w c \<and> next_handle w \<le> next_handle wa \<and>
              (\<exists>evs. log wa = log w @ evs \<and> filter is_call evs = []) \<and>
              run_closure (UpdateFn (Reactive r) k args c) wa =
                (if engine_throws wa k v args then Inl (EngineError k v args)
                 else Inr (wa\<lparr>log := log wa @ [TweenCreate k v args (next_handle wa)],
                             next_handle := Suc (next_handle wa),
                             cells := (cells wa)(c := Some (next_handle wa))\<rparr>)) \<and>
              flush (change r v w) =
                (case run_closure (UpdateFn (Reactive r) k args c) wa of
                   Inl e \<Rightarrow> Inl e | Inr wb \<Rightarrow> run_all q2 wb))"
proof -
  let ?u = "UpdateFn (Reactive r) k args c"
  let ?q = "fold enqueue (filter (reads r) (watchers w)) (post_queue w)"
  let ?w1 = "change r v w"
  let ?w0 = "?w1\<lparr>post_queue := []\<rparr>"
  have w1: "?w1 = w\<lparr>sources := (sources w)(r := v), post_queue := ?q\<rparr>"
    using assms(4) by (simp add: change_def)
  have d: "distinct ?q" using assms(2) by (simp add: bindings_ok_def distinct_fold_enqueue)
  have sub: "set ?q \<subseteq> set (watchers w)"
    using assms(2) by (auto simp: bindings_ok_def set_fold_enqueue)
  have "?u \<in> set ?q" using assms(3) by (simp add: set_fold_enqueue)
  from split_distinct[OF d this] obtain q1 q2 where
    q: "?q = q1 @ ?u # q2" and n1: "?u \<notin> set q1" and n2: "?u \<notin> set q2" by blast
  have pq: "post_queue ?w1 = q1 @ ?u # q2" using w1 q by simp
  have s1: "set q1 \<subseteq> set (watchers w)" using sub q by auto
  have u1: "\<forall>f\<in>set q1. is_update f"
    using s1 assms(1) unfolding module_only_def by blast
  have nw: "\<forall>f\<in>set q1. \<not> writes c f"
    by (rule others_do_not_write[OF assms(2,3) _ s1 n1]) simp
  have main: "cells wa c = cells w c \<and> next_handle w \<le> next_handle wa \<and>
              (\<exists>evs. log wa = log w @ evs \<and> filter is_call evs = []) \<and>
              run_closure ?u wa =
                (if engine_throws wa k v args then Inl (EngineError k v args)
                 else Inr (wa\<lparr>log := log wa @ [TweenCreate k v args (next_handle wa)],
                             next_handle := Suc (next_handle wa),
                             cells := (cells wa)(c := Some (next_handle wa))\<rparr>)) \<and>
              flush ?w1 = (case run_closure ?u wa of Inl e \<Rightarrow> Inl e | Inr wb \<Rightarrow> run_all q2 wb)"
    if r: "run_all q1 ?w0 = Inr wa" for wa
  proof -
    have e: "engine_only q1 ?w0 wa" by (rule run_all_engine_only[OF u1 r])
    note f = engine_only_fields[OF e]
    have c: "cells wa c = cells w c" using f(13) nw w1 by simp
    have h: "next_handle w \<le> next_handle wa" using f(11) w1 by simp
    have l: "\<exists>evs. log wa = log w @ evs \<and> filter is_call evs = []" using f(12) w1 by simp
    have "sources wa r = v" using f(3) w1 by simp
    then have tv: "toValue (Reactive r) wa = v" by simp
    have ru: "run_closure ?u wa =
                (if engine_throws wa k v args then Inl (EngineError k v args)
                 else Inr (wa\<lparr>log := log wa @ [TweenCreate k v args (next_handle wa)],
                             next_handle := Suc (next_handle wa),
                             cells := (cells wa)(c := Some (next_handle wa))\<rparr>))"
      using run_update_cases[of "Reactive r" k args c wa] assms(5) unfolding tv by simp
    have "flush ?w1 = run_all (q1 @ ?u # q2) ?w0" using pq by (simp add: flush_def)
    also have "\<dots> = (case run_closure ?u wa of Inl e \<Rightarrow> Inl e | Inr wb \<Rightarrow> run_all q2 wb)"
      using r by (simp add: run_all_append)
    finally show ?thesis using c h l ru by blast
  qed
  show ?thesis using pq n1 n2 main by blast
qed

lemma run_all_absent:
  assumes "\<forall>f\<in>set fs. is_update f \<and> (writes c f \<longrightarrow> f = UpdateFn (Reactive r) k args c)"
    and "falsy (sources w r)" and "run_all fs w = Inr w'"
  shows "cells w' c = cells w c \<and> sources w' = sources w \<and> watchers w' = watchers w"
  using assms
proof (induction fs arbitrary: w)
  case Nil
  then show ?case by simp
next
  case (Cons f fs)
  from Cons.prems(3) obtain w1 where 1: "run_closure f w = Inr w1" and 2: "run_all fs w1 = Inr w'"
    by (auto split: sum.splits)
  have s: "cells w1 c = cells w c \<and> sources w1 = sources w \<and> watchers w1 = watchers w"
  proof (cases "f = UpdateFn (Reactive r) k args c")
    case True
    with 1 Cons.prems(2) run_update_cases[of "Reactive r" k args c w] have "w1 = w" by simp
    then show ?thesis by simp
  next
    case False
    then have nw: "\<not> writes c f" and u: "is_update f" using Cons.prems(1) by auto
    have e: "engine_only [f] w w1" by (rule run_update_engine_only[OF u 1])
    from engine_only_fields(13)[OF e] nw have "cells w1 c = cells w c" by simp
    with engine_only_fields(1,3)[OF e] show ?thesis by simp
  qed
  then have "falsy (sources w1 r)" using Cons.prems(2) by simp
  from Cons.IH[OF _ this 2] Cons.prems(1) s show ?case by simp
qed

lemma quiet_step:
  assumes "module_only w" and "bindings_ok w"
    and "UpdateFn (Reactive r) k args c \<in> set (watchers w)"
    and "falsy (sources w r)" and "cells w c = None"
    and "quiet r x" and "exec x w = Inr w'"
  shows "UpdateFn (Reactive r) k args c \<in> set (watchers w') \<and> falsy (sources w' r) \<and>
         cells w' c = None"
proof (cases x)
  case (UseGsap ps)
  with assms show ?thesis by (auto simp: useGsap_def registerPlugin_def)
next
  case (Tween c')
  with assms show ?thesis by (auto simp: tween_api_result)
next
  case (Timeline v)
  with assms show ?thesis by (auto simp: timeline_result)
next
  case (Ctl m ctl)
  with assms show ?thesis by (auto simp: ctl_api_result)
next
  case (TlFn k' n)
  with assms show ?thesis by (auto simp: hook_on_def tryOnScopeDispose_def)
next
  case (Change r' v)
  with assms show ?thesis by (auto simp: change_def)
next
  case Flush
  let ?u = "UpdateFn (Reactive r) k args c"
  let ?w0 = "w\<lparr>post_queue := []\<rparr>"
  have r: "run_all (post_queue w) ?w0 = Inr w'" using assms(7) Flush by (simp add: flush_def)
  have sub: "set (post_queue w) \<subseteq> set (watchers w)" using assms(2) by (simp add: bindings_ok_def)
  have "\<forall>f\<in>set (post_queue w). is_update f \<and> (writes c f \<longrightarrow> f = ?u)"
  proof
    fix f assume f: "f \<in> set (post_queue w)"
    then have fw: "f \<in> set (watchers w)" using sub by auto
    have "is_update f" using f assms(1) unfolding module_only_def by blast
    moreover have "writes c f \<longrightarrow> f = ?u"
      using fw assms(2,3) unfolding bindings_ok_def by (metis writes.simps(1))
    ultimately show "is_update f \<and> (writes c f \<longrightarrow> f = ?u)" by simp
  qed
  from run_all_absent[OF this _ r] assms(3,4,5) show ?thesis by simp
next
  case Mount
  have "\<forall>f\<in>set (mounted_cbs w). is_trigger f"
    and "\<forall>k. \<forall>h\<in>set (hooks (w\<lparr>mounted_cbs := []\<rparr>) k). is_user h"
    using assms(1) by (simp_all add: module_only_def)
  from run_all_triggers[OF this] obtain evs where
    "run_all (mounted_cbs w) (w\<lparr>mounted_cbs := []\<rparr>) =
       Inr (w\<lparr>mounted_cbs := []\<rparr>\<lparr>log := log (w\<lparr>mounted_cbs := []\<rparr>) @ evs\<rparr>)" by blast
  with assms Mount show ?thesis by (auto simp: mount_def)
next
  case ScopeEnd
  with assms(6) show ?thesis by simp
qed

lemma quiet_steps:
  assumes "module_only w" and "bindings_ok w"
    and "UpdateFn (Reactive r) k args c \<in> set (watchers w)"
    and "falsy (sources w r)" and "cells w c = None"
    and "\<forall>x\<in>set xs. quiet r x" and "execs xs w = Inr w'"
  shows "UpdateFn (Reactive r) k args c \<in> set (watchers w') \<and> falsy (sources w' r) \<and>
         cells w' c = None"
  using assms
proof (induction xs arbitrary: w)
  case Nil
  then show ?case by simp
next
  case (Cons x xs)
  from Cons.prems(7) obtain w1 where 1: "exec x w = Inr w1" and 2: "execs xs w1 = Inr w'"
    by (auto split: sum.splits)
  have q: "quiet r x" and qs: "\<forall>x\<in>set xs. quiet r x" using Cons.prems(6) by simp_all
  from exec_invariants[OF Cons.prems(1,2) 1] have i: "module_only w1" "bindings_ok w1" by simp_all
  from quiet_step[OF Cons.prems(1-5) q 1]
  have j: "UpdateFn (Reactive r) k args c \<in> set (watchers w1)" "falsy (sources w1 r)"
    "cells w1 c = None" by simp_all
  show ?case by (rule Cons.IH[OF i j qs 2])
qed

section \<open>Preset merge\<close>

lemma map_of_assign: "map_of (assign kv xs) = (map_of xs)(fst kv \<mapsto> snd kv)"
  by (induction kv xs rule: assign.induct) (auto simp: fun_upd_twist)

lemma map_of_merge_vars:
  "distinct (map fst ys) \<Longrightarrow>
   map_of (merge_vars xs ys) k = (case map_of ys k of Some v \<Rightarrow> Some v | None \<Rightarrow> map_of xs k)"
  unfolding merge_vars_def
proof (induction ys arbitrary: xs)
  case Nil
  then show ?case by simp
next
  case (Cons y ys)
  then have d: "distinct (map fst ys)" and n: "fst y \<notin> fst ` set ys" by simp_all
  from n have "map_of ys (fst y) = None" by (simp add: map_of_eq_None_iff)
  with Cons.IH[OF d, of "assign y xs"] show ?case
    by (cases y) (auto simp: map_of_assign split: option.splits)
qed

section \<open>The claims\<close>

subsection \<open>C1: teardown of a binding\<close>

text \<open>
  C1. Claimed: each of \<^verbatim>\<open>set\<close>, \<^verbatim>\<open>to\<close>, \<^verbatim>\<open>from\<close>, \<^verbatim>\<open>fromTo\<close> registers one
  scope-teardown callback, which at the end of the scope invokes \<^verbatim>\<open>kill\<close> on the handle
  that is current then. The code at \<^verbatim>\<open>to(el, vars)\<close> with \<open>el\<close> an element: after the
  first post flush the binding's variable holds handle 0, the one registered dispose
  callback is \<^verbatim>\<open>() => tween?.kill()\<close> over the undefined parameter of \<^verbatim>\<open>activationFn\<close>,
  and the end of the scope sends the engine nothing: the log still holds the creation
  only.
\<close>

theorem teardown_leaves_current_tween_alive:
  "cells (projr (execs [Tween (CallTo (Plain (Element 0)) 0), Flush]
            (init accepts_all))) 0 = Some 0 \<and>
   disposers (projr (execs [Tween (CallTo (Plain (Element 0)) 0), Flush]
            (init accepts_all))) = [KillTween None] \<and>
   log (projr (execs [Tween (CallTo (Plain (Element 0)) 0), Flush, ScopeEnd]
            (init accepts_all))) =
     [TweenCreate FTo (Element 0) [Ref 0] 0]"
  by (simp add: useGsap_to_def let_tween_def activationFn_def tryOnScopeDispose_def
        watchPostEffect_def enqueue_def init_def accepts_all_def flush_def scope_end_def updateFactory_def
        gsap_tween_def)

subsection \<open>C2: an absent target never reaches the engine\<close>

text \<open>
  C2. For every binding created by \<^verbatim>\<open>set\<close>, \<^verbatim>\<open>to\<close>, \<^verbatim>\<open>from\<close> or \<^verbatim>\<open>fromTo\<close>, the
  call registers one watch callback \<open>u\<close>, and a run of \<open>u\<close> in any state \<open>w'\<close> in which the
  target resolves to an absent value (undefined, null; any value on which \<^verbatim>\<open>!el\<close> holds)
  leaves the state as it is: no engine factory is invoked on that tick.
\<close>

theorem absent_target_no_engine_call:
  assumes "falsy (toValue (call_target c) w')"
  shows "\<exists>u. watchers (snd (tween_api c w)) = watchers w @ [u] \<and> run_closure u w' = Inr w'"
  using assms by (simp add: tween_api_result updateFactory_def)

text \<open>
  The theorem at \<^verbatim>\<open>set(ref, vars)\<close>, the ref reading a source that is undefined.
\<close>

theorem absent_target_no_engine_call_witness:
  "falsy (toValue (call_target (CallSet (Reactive 0) 0)) (init accepts_all)) \<and>
   (\<exists>u. watchers (snd (tween_api (CallSet (Reactive 0) 0) (init accepts_all))) =
           watchers (init accepts_all) @ [u] \<and>
        run_closure u (init accepts_all) = Inr (init accepts_all))"
proof -
  have h: "falsy (toValue (call_target (CallSet (Reactive 0) 0)) (init accepts_all))"
    by (simp add: init_def accepts_all_def)
  from absent_target_no_engine_call[OF h, of "init accepts_all"] h show ?thesis by simp
qed

subsection \<open>C3: the mount hook of a timeline\<close>

text \<open>
  C3. Claimed: \<^verbatim>\<open>timeline()\<close> pre-registers exactly one handler on the mount hook, and
  the timeline is killed when the hook fires. The code writes the handler,
  \<^verbatim>\<open>(tl) => tl.kill()\<close>, and hands it to \<^verbatim>\<open>onMount.off\<close>, which deletes from the hook a
  function that was never added. At \<^verbatim>\<open>timeline()\<close> in a fresh component: the hook has no
  handler, the mounted callback triggers the hook, and mounting sends the engine
  nothing; with a handler subscribed through \<^verbatim>\<open>tlFn\<close>, that handler is all that runs.
\<close>

theorem timeline_mount_sends_no_kill:
  "hooks (projr (execs [Timeline None] (init accepts_all))) 0 = [] \<and>
   mounted_cbs (projr (execs [Timeline None] (init accepts_all))) = [TriggerHook 0 0] \<and>
   log (projr (execs [Timeline None, Mount] (init accepts_all))) =
     [TimelineCreate None 0] \<and>
   log (projr (execs [Timeline None, TlFn 0 7, Mount] (init accepts_all))) =
     [TimelineCreate None 0, Notified 7 0]"
  by (simp add: useGsap_timeline_def gsap_timeline_def createEventHook_def tryOnMounted_def
        new_KillArg_def hook_off_def hook_on_def tryOnScopeDispose_def hook_trigger_def
        mount_def init_def accepts_all_def)

subsection \<open>C4: plugin registration\<close>

text \<open>
  Claimed: plugins are registered once, at the first use of \<^verbatim>\<open>useGsap\<close>, and later
  calls do not register again. Two calls of \<^verbatim>\<open>useGsap()\<close> make two calls of
  \<^verbatim>\<open>gsap.registerPlugin\<close>.
\<close>

theorem registerPlugin_twice_counterexample:
  "log (projr (execs [UseGsap None, UseGsap None] (init accepts_all))) =
     [RegisterPlugin [ScrollTrigger], RegisterPlugin [ScrollTrigger]]"
  by (simp add: useGsap_def registerPlugin_def init_def accepts_all_def)

text \<open>
  C4, as amended. Every call of \<^verbatim>\<open>useGsap\<close> invokes \<^verbatim>\<open>gsap.registerPlugin\<close> once,
  with \<^verbatim>\<open>[ScrollTrigger]\<close> when no plugin list is given and with the caller's list
  otherwise; a second call registers again.
\<close>

theorem useGsap_registers_on_every_call:
  "log (useGsap None w) = log w @ [RegisterPlugin [ScrollTrigger]] \<and>
   log (useGsap (Some ps) w) = log w @ [RegisterPlugin ps] \<and>
   log (useGsap p2 (useGsap p1 w)) =
     log w @ [RegisterPlugin (case p1 of None \<Rightarrow> [ScrollTrigger] | Some ps \<Rightarrow> ps),
              RegisterPlugin (case p2 of None \<Rightarrow> [ScrollTrigger] | Some ps \<Rightarrow> ps)]"
  by (simp add: useGsap_def registerPlugin_def)

subsection \<open>C5: when the engine factory runs\<close>

text \<open>
  Claimed: with a target that is present at once, the engine factory is invoked before
  the call returns. At \<^verbatim>\<open>to(el, vars)\<close> with \<open>el\<close> an element, in a fresh component, the
  call returns undefined, the engine has received nothing, and the update function
  waits in the post-flush queue.
\<close>

theorem factory_not_called_before_return_counterexample:
  "fst (tween_api (CallTo (Plain (Element 0)) 0) (init accepts_all)) = None \<and>
   log (snd (tween_api (CallTo (Plain (Element 0)) 0) (init accepts_all))) = [] \<and>
   post_queue (snd (tween_api (CallTo (Plain (Element 0)) 0) (init accepts_all))) =
     [UpdateFn (Plain (Element 0)) FTo [Ref 0] 0]"
  by (simp add: useGsap_to_def let_tween_def activationFn_def tryOnScopeDispose_def
        watchPostEffect_def enqueue_def init_def accepts_all_def)

text \<open>
  C5, as amended. In every state a component can reach, a call of \<^verbatim>\<open>set\<close>, \<^verbatim>\<open>to\<close>,
  \<^verbatim>\<open>from\<close> or \<^verbatim>\<open>fromTo\<close> invokes no engine factory itself and returns undefined: its
  update function \<open>u\<close> goes to the end of the host's post-flush queue. The next post flush
  runs the effects queued before it and then makes the initial watch run of \<open>u\<close>; a run
  of \<open>u\<close> with a target that resolves to a present value (one on which \<^verbatim>\<open>!el\<close> is false)
  invokes the engine factory exactly once, synchronously, with the resolved target and
  the given options: the handle the engine returns is stored in the binding's variable,
  and what the engine throws leaves the run.
\<close>

theorem factory_called_in_first_post_flush:
  assumes "execs xs (init thr) = Inr w"
  shows "fst (tween_api c w) = None \<and> log (snd (tween_api c w)) = log w \<and>
     (\<exists>u. post_queue (snd (tween_api c w)) = post_queue w @ [u] \<and>
        (\<forall>w1. run_all (post_queue w) ((snd (tween_api c w))\<lparr>post_queue := []\<rparr>) = Inr w1 \<longrightarrow>
              flush (snd (tween_api c w)) = run_closure u w1) \<and>
        (\<forall>w1. \<not> falsy (toValue (call_target c) w1) \<longrightarrow>
           run_closure u w1 =
             (if engine_throws w1 (call_kind c) (toValue (call_target c) w1) (call_args c)
              then Inl (EngineError (call_kind c) (toValue (call_target c) w1) (call_args c))
              else Inr (w1\<lparr>log := log w1 @ [TweenCreate (call_kind c) (toValue (call_target c) w1)
                                              (call_args c) (next_handle w1)],
                          next_handle := Suc (next_handle w1),
                          cells := (cells w1)(next_cell w := Some (next_handle w1))\<rparr>))))"
proof -
  let ?u = "UpdateFn (call_target c) (call_kind c) (call_args c) (next_cell w)"
  have ok: "bindings_ok w" by (rule reachable_invariants(2)[OF assms])
  have nq: "?u \<notin> set (post_queue w)" by (rule new_binding_not_registered(2)[OF ok])
  then have pq: "post_queue (snd (tween_api c w)) = post_queue w @ [?u]"
    by (simp add: tween_api_result enqueue_def)
  have fl: "flush (snd (tween_api c w)) = run_closure ?u w1"
    if "run_all (post_queue w) ((snd (tween_api c w))\<lparr>post_queue := []\<rparr>) = Inr w1" for w1
    using that pq by (simp add: flush_def run_all_append split: sum.splits)
  have ru: "run_closure ?u w1 =
             (if engine_throws w1 (call_kind c) (toValue (call_target c) w1) (call_args c)
              then Inl (EngineError (call_kind c) (toValue (call_target c) w1) (call_args c))
              else Inr (w1\<lparr>log := log w1 @ [TweenCreate (call_kind c) (toValue (call_target c) w1)
                                              (call_args c) (next_handle w1)],
                          next_handle := Suc (next_handle w1),
                          cells := (cells w1)(next_cell w := Some (next_handle w1))\<rparr>))"
    if "\<not> falsy (toValue (call_target c) w1)" for w1
    using that run_update_cases[of "call_target c" "call_kind c" "call_args c" "next_cell w" w1]
    by simp
  have "fst (tween_api c w) = None" "log (snd (tween_api c w)) = log w"
    by (simp_all add: tween_api_result)
  with pq fl ru show ?thesis by blast
qed

text \<open>
  The theorem at \<^verbatim>\<open>fromTo(".box", options)\<close>, called after a \<^verbatim>\<open>set\<close> whose update
  function is still queued.
\<close>

theorem factory_called_in_first_post_flush_witness:
  "execs [Tween (CallSet (Plain Null) 0)] (init accepts_all) = Inr (snd (tween_api (CallSet (Plain Null) 0) (init accepts_all))) \<and>
   fst (tween_api (CallFromTo (Plain (Selector ''.box'')) 1) (snd (tween_api (CallSet (Plain Null) 0) (init accepts_all)))) = None \<and> log (snd (tween_api (CallFromTo (Plain (Selector ''.box'')) 1) (snd (tween_api (CallSet (Plain Null) 0) (init accepts_all))))) = log (snd (tween_api (CallSet (Plain Null) 0) (init accepts_all))) \<and>
     (\<exists>u. post_queue (snd (tween_api (CallFromTo (Plain (Selector ''.box'')) 1) (snd (tween_api (CallSet (Plain Null) 0) (init accepts_all))))) = post_queue (snd (tween_api (CallSet (Plain Null) 0) (init accepts_all))) @ [u] \<and>
        (\<forall>w1. run_all (post_queue (snd (tween_api (CallSet (Plain Null) 0) (init accepts_all)))) ((snd (tween_api (CallFromTo (Plain (Selector ''.box'')) 1) (snd (tween_api (CallSet (Plain Null) 0) (init accepts_all)))))\<lparr>post_queue := []\<rparr>) = Inr w1 \<longrightarrow>
              flush (snd (tween_api (CallFromTo (Plain (Selector ''.box'')) 1) (snd (tween_api (CallSet (Plain Null) 0) (init accepts_all))))) = run_closure u w1) \<and>
        (\<forall>w1. \<not> falsy (toValue (call_target (CallFromTo (Plain (Selector ''.box'')) 1)) w1) \<longrightarrow>
           run_closure u w1 =
             (if engine_throws w1 (call_kind (CallFromTo (Plain (Selector ''.box'')) 1)) (toValue (call_target (CallFromTo (Plain (Selector ''.box'')) 1)) w1) (call_args (CallFromTo (Plain (Selector ''.box'')) 1))
              then Inl (EngineError (call_kind (CallFromTo (Plain (Selector ''.box'')) 1)) (toValue (call_target (CallFromTo (Plain (Selector ''.box'')) 1)) w1) (call_args (CallFromTo (Plain (Selector ''.box'')) 1)))
              else Inr (w1\<lparr>log := log w1 @ [TweenCreate (call_kind (CallFromTo (Plain (Selector ''.box'')) 1)) (toValue (call_target (CallFromTo (Plain (Selector ''.box'')) 1)) w1)
                                              (call_args (CallFromTo (Plain (Selector ''.box'')) 1)) (next_handle w1)],
                          next_handle := Suc (next_handle w1),
                          cells := (cells w1)(next_cell (snd (tween_api (CallSet (Plain Null) 0) (init accepts_all))) := Some (next_handle w1))\<rparr>))))"
proof -
  have h: "execs [Tween (CallSet (Plain Null) 0)] (init accepts_all) = Inr (snd (tween_api (CallSet (Plain Null) 0) (init accepts_all)))"
    by simp
  from factory_called_in_first_post_flush[OF h, of "CallFromTo (Plain (Selector ''.box'')) 1"] h
  show ?thesis by blast
qed

subsection \<open>C6: a timeline exists from the call on\<close>

text \<open>
  C6. \<^verbatim>\<open>timeline(vars)\<close> never faults and asks the engine for the timeline during the
  call, in every state (with or without a current instance, mounted or not); and in
  every state \<open>w2\<close>, before or after the mount event, each of \<^verbatim>\<open>play\<close>, \<^verbatim>\<open>pause\<close>,
  \<^verbatim>\<open>restart\<close>, \<^verbatim>\<open>resume\<close>, \<^verbatim>\<open>progress\<close>, \<^verbatim>\<open>seek\<close> and \<^verbatim>\<open>isActive\<close> of the returned
  control object returns without a fault, having called the member of that name on the
  timeline handle.
\<close>

theorem timeline_eager_controls_never_fault:
  "\<exists>ctl w1. useGsap_timeline v w = Inr (ctl, w1) \<and>
      log w1 = log w @ [TimelineCreate v (tl_h ctl)] \<and>
      (\<forall>w2. play ctl w2 = Inr (w2\<lparr>log := log w2 @ [Call (tl_h ctl) Play]\<rparr>) \<and>
            pause ctl w2 = Inr (w2\<lparr>log := log w2 @ [Call (tl_h ctl) Pause]\<rparr>) \<and>
            restart ctl w2 = Inr (w2\<lparr>log := log w2 @ [Call (tl_h ctl) Restart]\<rparr>) \<and>
            resume ctl w2 = Inr (w2\<lparr>log := log w2 @ [Call (tl_h ctl) Resume]\<rparr>) \<and>
            (\<forall>x. progress ctl x w2 = Inr (w2\<lparr>log := log w2 @ [Call (tl_h ctl) (Progress x)]\<rparr>)) \<and>
            (\<forall>x. seek ctl x w2 = Inr (w2\<lparr>log := log w2 @ [Call (tl_h ctl) (Seek x)]\<rparr>)) \<and>
            isActive ctl w2 = Inr (w2\<lparr>log := log w2 @ [Call (tl_h ctl) IsActive]\<rparr>))"
  by (simp add: timeline_result play_def pause_def restart_def resume_def progress_def
        seek_def isActive_def)

subsection \<open>C7: a target that arrives late\<close>

text \<open>
  C7. In any state a component can reach (whatever other bindings it has), a binding is
  created whose target reads the reactive source \<open>r\<close>, absent then. Let the component and
  the host do anything (\<open>ys\<close>: other bindings, timelines, changes, flushes, mount) that
  keeps the scope alive and \<open>r\<close> absent. Then the binding's variable is still undefined,
  and every run of its update function \<open>u\<close> with \<open>r\<close> absent does nothing: the engine
  factory has not been invoked for it. At the first tick at which \<open>r\<close> takes a present
  value \<open>v'\<close>, \<open>u\<close> stands exactly once in the post-flush queue, between the effects \<open>q1\<close>
  and \<open>q2\<close> of other bindings; when \<open>q1\<close> has run the variable is still undefined, and
  the one run of \<open>u\<close> invokes the engine factory exactly once, with \<open>v'\<close> (the handle
  returned is stored; what the engine throws leaves the flush).
\<close>

theorem late_target_one_engine_call:
  assumes "execs xs (init thr) = Inr w"
    and "call_target c = Reactive r" and "falsy (sources w r)"
    and "\<forall>x\<in>set ys. quiet r x"
    and "execs ys (snd (tween_api c w)) = Inr w2"
    and "\<not> falsy v'"
  shows "cells w2 (next_cell w) = None \<and>
     (\<exists>u q1 q2. watchers (snd (tween_api c w)) = watchers w @ [u] \<and>
        (\<forall>w'. falsy (sources w' r) \<longrightarrow> run_closure u w' = Inr w') \<and>
        post_queue (change r v' w2) = q1 @ u # q2 \<and> u \<notin> set q1 \<and> u \<notin> set q2 \<and>
        (\<forall>wa. run_all q1 ((change r v' w2)\<lparr>post_queue := []\<rparr>) = Inr wa \<longrightarrow>
           cells wa (next_cell w) = None \<and>
           run_closure u wa =
             (if engine_throws wa (call_kind c) v' (call_args c)
              then Inl (EngineError (call_kind c) v' (call_args c))
              else Inr (wa\<lparr>log := log wa @ [TweenCreate (call_kind c) v' (call_args c)
                                              (next_handle wa)],
                          next_handle := Suc (next_handle wa),
                          cells := (cells wa)(next_cell w := Some (next_handle wa))\<rparr>)) \<and>
           flush (change r v' w2) =
             (case run_closure u wa of Inl e \<Rightarrow> Inl e | Inr wb \<Rightarrow> run_all q2 wb)))"
proof -
  let ?c = "next_cell w"
  let ?u = "UpdateFn (Reactive r) (call_kind c) (call_args c) ?c"
  let ?w1 = "snd (tween_api c w)"
  have x1: "execs (xs @ [Tween c]) (init thr) = Inr ?w1"
    using assms(1) by (simp add: execs_append)
  note i1 = reachable_invariants(1,2)[OF x1]
  have wu: "watchers ?w1 = watchers w @ [?u]" using assms(2) by (simp add: tween_api_result)
  then have u1: "?u \<in> set (watchers ?w1)" by simp
  have s1: "falsy (sources ?w1 r)" using assms(3) by (simp add: tween_api_result)
  have c1: "cells ?w1 ?c = None" by (simp add: tween_api_result)
  from quiet_steps[OF i1 u1 s1 c1 assms(4,5)]
  have u2: "?u \<in> set (watchers w2)" and s2: "falsy (sources w2 r)" and c2: "cells w2 ?c = None"
    by simp_all
  have x2: "execs ((xs @ [Tween c]) @ ys) (init thr) = Inr w2"
    using x1 assms(5) by (simp add: execs_append del: append_assoc)
  note i2 = reachable_invariants(1,2)[OF x2]
  have ne: "sources w2 r \<noteq> v'" using s2 assms(6) by auto
  have noop: "\<forall>w'. falsy (sources w' r) \<longrightarrow> run_closure ?u w' = Inr w'"
    using run_update_cases[of "Reactive r" "call_kind c" "call_args c" ?c] by simp
  from tick_runs_binding_once[OF i2 u2 ne assms(6)] obtain q1 q2 where
    pq: "post_queue (change r v' w2) = q1 @ ?u # q2" and n: "?u \<notin> set q1" "?u \<notin> set q2"
    and m: "\<forall>wa. run_all q1 ((change r v' w2)\<lparr>post_queue := []\<rparr>) = Inr wa \<longrightarrow>
              cells wa ?c = cells w2 ?c \<and> next_handle w2 \<le> next_handle wa \<and>
              (\<exists>evs. log wa = log w2 @ evs \<and> filter is_call evs = []) \<and>
              run_closure ?u wa =
                (if engine_throws wa (call_kind c) v' (call_args c)
                 then Inl (EngineError (call_kind c) v' (call_args c))
                 else Inr (wa\<lparr>log := log wa @ [TweenCreate (call_kind c) v' (call_args c)
                                                 (next_handle wa)],
                             next_handle := Suc (next_handle wa),
                             cells := (cells wa)(?c := Some (next_handle wa))\<rparr>)) \<and>
              flush (change r v' w2) =
                (case run_closure ?u wa of Inl e \<Rightarrow> Inl e | Inr wb \<Rightarrow> run_all q2 wb)"
    by blast
  from m c2 have m': "\<forall>wa. run_all q1 ((change r v' w2)\<lparr>post_queue := []\<rparr>) = Inr wa \<longrightarrow>
           cells wa ?c = None \<and>
           run_closure ?u wa =
             (if engine_throws wa (call_kind c) v' (call_args c)
              then Inl (EngineError (call_kind c) v' (call_args c))
              else Inr (wa\<lparr>log := log wa @ [TweenCreate (call_kind c) v' (call_args c)
                                              (next_handle wa)],
                          next_handle := Suc (next_handle wa),
                          cells := (cells wa)(?c := Some (next_handle wa))\<rparr>)) \<and>
           flush (change r v' w2) =
             (case run_closure ?u wa of Inl e \<Rightarrow> Inl e | Inr wb \<Rightarrow> run_all q2 wb)"
    by simp
  from c2 wu noop pq n m' show ?thesis by blast
qed

text \<open>
  The theorem at \<^verbatim>\<open>from(ref, vars)\<close>, created after a \<^verbatim>\<open>to\<close> on an element: the host
  flushes, the source becomes null, the host flushes, another source changes; then the
  source becomes an element.
\<close>

theorem late_target_one_engine_call_witness:
  "execs [Tween (CallTo (Plain (Element 9)) 0)] (init accepts_all) = Inr (snd (tween_api (CallTo (Plain (Element 9)) 0) (init accepts_all))) \<and>
   call_target (CallFrom (Reactive 3) 1) = Reactive 3 \<and> falsy (sources (snd (tween_api (CallTo (Plain (Element 9)) 0) (init accepts_all))) 3) \<and>
   quiet 3 Flush \<and> quiet 3 (Change 3 Null) \<and> quiet 3 (Change 2 (Element 1)) \<and>
   execs [Flush, Change 3 Null, Flush, Change 2 (Element 1)] (snd (tween_api (CallFrom (Reactive 3) 1) (snd (tween_api (CallTo (Plain (Element 9)) 0) (init accepts_all))))) = Inr (projr (execs [Flush, Change 3 Null, Flush, Change 2 (Element 1)] (snd (tween_api (CallFrom (Reactive 3) 1) (snd (tween_api (CallTo (Plain (Element 9)) 0) (init accepts_all))))))) \<and>
   \<not> falsy (Element 5) \<and>
   cells (projr (execs [Flush, Change 3 Null, Flush, Change 2 (Element 1)] (snd (tween_api (CallFrom (Reactive 3) 1) (snd (tween_api (CallTo (Plain (Element 9)) 0) (init accepts_all))))))) (next_cell (snd (tween_api (CallTo (Plain (Element 9)) 0) (init accepts_all)))) = None \<and>
     (\<exists>u q1 q2. watchers (snd (tween_api (CallFrom (Reactive 3) 1) (snd (tween_api (CallTo (Plain (Element 9)) 0) (init accepts_all))))) = watchers (snd (tween_api (CallTo (Plain (Element 9)) 0) (init accepts_all))) @ [u] \<and>
        (\<forall>w'. falsy (sources w' 3) \<longrightarrow> run_closure u w' = Inr w') \<and>
        post_queue (change 3 (Element 5) (projr (execs [Flush, Change 3 Null, Flush, Change 2 (Element 1)] (snd (tween_api (CallFrom (Reactive 3) 1) (snd (tween_api (CallTo (Plain (Element 9)) 0) (init accepts_all)))))))) = q1 @ u # q2 \<and> u \<notin> set q1 \<and> u \<notin> set q2 \<and>
        (\<forall>wa. run_all q1 ((change 3 (Element 5) (projr (execs [Flush, Change 3 Null, Flush, Change 2 (Element 1)] (snd (tween_api (CallFrom (Reactive 3) 1) (snd (tween_api (CallTo (Plain (Element 9)) 0) (init accepts_all))))))))\<lparr>post_queue := []\<rparr>) = Inr wa \<longrightarrow>
           cells wa (next_cell (snd (tween_api (CallTo (Plain (Element 9)) 0) (init accepts_all)))) = None \<and>
           run_closure u wa =
             (if engine_throws wa (call_kind (CallFrom (Reactive 3) 1)) (Element 5) (call_args (CallFrom (Reactive 3) 1))
              then Inl (EngineError (call_kind (CallFrom (Reactive 3) 1)) (Element 5) (call_args (CallFrom (Reactive 3) 1)))
              else Inr (wa\<lparr>log := log wa @ [TweenCreate (call_kind (CallFrom (Reactive 3) 1)) (Element 5) (call_args (CallFrom (Reactive 3) 1))
                                              (next_handle wa)],
                          next_handle := Suc (next_handle wa),
                          cells := (cells wa)(next_cell (snd (tween_api (CallTo (Plain (Element 9)) 0) (init accepts_all))) := Some (next_handle wa))\<rparr>)) \<and>
           flush (change 3 (Element 5) (projr (execs [Flush, Change 3 Null, Flush, Change 2 (Element 1)] (snd (tween_api (CallFrom (Reactive 3) 1) (snd (tween_api (CallTo (Plain (Element 9)) 0) (init accepts_all)))))))) =
             (case run_closure u wa of Inl e \<Rightarrow> Inl e | Inr wb \<Rightarrow> run_all q2 wb)))"
proof -
  have h1: "execs [Tween (CallTo (Plain (Element 9)) 0)] (init accepts_all) = Inr (snd (tween_api (CallTo (Plain (Element 9)) 0) (init accepts_all)))"
    by simp
  have h2: "call_target (CallFrom (Reactive 3) 1) = Reactive 3" by simp
  have h3: "falsy (sources (snd (tween_api (CallTo (Plain (Element 9)) 0) (init accepts_all))) 3)"
    by (simp add: tween_api_result init_def)
  have q: "quiet 3 Flush" "quiet 3 (Change 3 Null)" "quiet 3 (Change 2 (Element 1))"
    by simp_all
  then have h4: "\<forall>x\<in>set [Flush, Change 3 Null, Flush, Change 2 (Element 1)]. quiet 3 x" by simp
  have h5: "execs [Flush, Change 3 Null, Flush, Change 2 (Element 1)] (snd (tween_api (CallFrom (Reactive 3) 1) (snd (tween_api (CallTo (Plain (Element 9)) 0) (init accepts_all))))) = Inr (projr (execs [Flush, Change 3 Null, Flush, Change 2 (Element 1)] (snd (tween_api (CallFrom (Reactive 3) 1) (snd (tween_api (CallTo (Plain (Element 9)) 0) (init accepts_all)))))))"
    by (simp add: tween_api_result init_def accepts_all_def flush_def change_def enqueue_def
          updateFactory_def gsap_tween_def)
  have h6: "\<not> falsy (Element 5)" by simp
  from late_target_one_engine_call[OF h1 h2 h3 h4 h5 h6] h1 h2 h3 q h5 h6
  show ?thesis by blast
qed

subsection \<open>C8: a target that changes\<close>

text \<open>
  C8. In any state a component can reach, take a binding of the live scope (its update
  function \<open>u\<close> is registered) whose target reads the reactive source \<open>r\<close>, present, and
  whose variable holds the handle \<open>h\<close>. When \<open>r\<close> changes to another present value \<open>v2\<close>,
  \<open>u\<close> stands exactly once in the post-flush queue; when the effects before it have
  run the variable still holds \<open>h\<close>, and the run of \<open>u\<close> invokes the engine factory once
  with \<open>v2\<close>: the handle returned is new (\<open>h\<close> is below it), it is stored as the current
  one, and the run sends the engine this creation and nothing else (what the engine
  throws leaves the flush). The whole flush, if it returns, has sent the engine no
  member call: no \<^verbatim>\<open>kill\<close> and no other call on \<open>h\<close>.
\<close>

theorem retarget_creates_new_handle_keeps_old:
  assumes "execs xs (init thr) = Inr w"
    and "UpdateFn (Reactive r) k args c \<in> set (watchers w)"
    and "cells w c = Some h"
    and "\<not> falsy (sources w r)" and "\<not> falsy v2" and "v2 \<noteq> sources w r"
  shows "(\<exists>q1 q2. post_queue (change r v2 w) = q1 @ UpdateFn (Reactive r) k args c # q2 \<and>
        UpdateFn (Reactive r) k args c \<notin> set q1 \<and> UpdateFn (Reactive r) k args c \<notin> set q2 \<and>
        (\<forall>wa. run_all q1 ((change r v2 w)\<lparr>post_queue := []\<rparr>) = Inr wa \<longrightarrow>
           cells wa c = Some h \<and> h < next_handle wa \<and>
           run_closure (UpdateFn (Reactive r) k args c) wa =
             (if engine_throws wa k v2 args then Inl (EngineError k v2 args)
              else Inr (wa\<lparr>log := log wa @ [TweenCreate k v2 args (next_handle wa)],
                          next_handle := Suc (next_handle wa),
                          cells := (cells wa)(c := Some (next_handle wa))\<rparr>)) \<and>
           flush (change r v2 w) =
             (case run_closure (UpdateFn (Reactive r) k args c) wa of
                Inl e \<Rightarrow> Inl e | Inr wb \<Rightarrow> run_all q2 wb))) \<and>
     (\<forall>w'. flush (change r v2 w) = Inr w' \<longrightarrow>
        (\<exists>evs. log w' = log w @ evs \<and> filter is_call evs = []))"
proof -
  let ?u = "UpdateFn (Reactive r) k args c"
  note i = reachable_invariants(1,2)[OF assms(1)]
  have ne: "sources w r \<noteq> v2" using assms(6) by simp
  have hb: "h < next_handle w" using i(2) assms(3) unfolding bindings_ok_def by blast
  from tick_runs_binding_once[OF i assms(2) ne assms(5)] obtain q1 q2 where
    pq: "post_queue (change r v2 w) = q1 @ ?u # q2" and n: "?u \<notin> set q1" "?u \<notin> set q2"
    and m: "\<forall>wa. run_all q1 ((change r v2 w)\<lparr>post_queue := []\<rparr>) = Inr wa \<longrightarrow>
              cells wa c = cells w c \<and> next_handle w \<le> next_handle wa \<and>
              (\<exists>evs. log wa = log w @ evs \<and> filter is_call evs = []) \<and>
              run_closure ?u wa =
                (if engine_throws wa k v2 args then Inl (EngineError k v2 args)
                 else Inr (wa\<lparr>log := log wa @ [TweenCreate k v2 args (next_handle wa)],
                             next_handle := Suc (next_handle wa),
                             cells := (cells wa)(c := Some (next_handle wa))\<rparr>)) \<and>
              flush (change r v2 w) =
                (case run_closure ?u wa of Inl e \<Rightarrow> Inl e | Inr wb \<Rightarrow> run_all q2 wb)"
    by blast
  have m': "\<forall>wa. run_all q1 ((change r v2 w)\<lparr>post_queue := []\<rparr>) = Inr wa \<longrightarrow>
           cells wa c = Some h \<and> h < next_handle wa \<and>
           run_closure ?u wa =
             (if engine_throws wa k v2 args then Inl (EngineError k v2 args)
              else Inr (wa\<lparr>log := log wa @ [TweenCreate k v2 args (next_handle wa)],
                          next_handle := Suc (next_handle wa),
                          cells := (cells wa)(c := Some (next_handle wa))\<rparr>)) \<and>
           flush (change r v2 w) =
             (case run_closure ?u wa of Inl e \<Rightarrow> Inl e | Inr wb \<Rightarrow> run_all q2 wb)"
  proof (intro allI impI)
    fix wa assume "run_all q1 ((change r v2 w)\<lparr>post_queue := []\<rparr>) = Inr wa"
    with m have a: "cells wa c = cells w c" "next_handle w \<le> next_handle wa"
      "run_closure ?u wa =
                (if engine_throws wa k v2 args then Inl (EngineError k v2 args)
                 else Inr (wa\<lparr>log := log wa @ [TweenCreate k v2 args (next_handle wa)],
                             next_handle := Suc (next_handle wa),
                             cells := (cells wa)(c := Some (next_handle wa))\<rparr>))"
      "flush (change r v2 w) =
                (case run_closure ?u wa of Inl e \<Rightarrow> Inl e | Inr wb \<Rightarrow> run_all q2 wb)"
      by blast+
    have "cells wa c = Some h" using a(1) assms(3) by simp
    moreover have "h < next_handle wa" using hb a(2) by simp
    ultimately show "cells wa c = Some h \<and> h < next_handle wa \<and>
           run_closure ?u wa =
             (if engine_throws wa k v2 args then Inl (EngineError k v2 args)
              else Inr (wa\<lparr>log := log wa @ [TweenCreate k v2 args (next_handle wa)],
                          next_handle := Suc (next_handle wa),
                          cells := (cells wa)(c := Some (next_handle wa))\<rparr>)) \<and>
           flush (change r v2 w) =
             (case run_closure ?u wa of Inl e \<Rightarrow> Inl e | Inr wb \<Rightarrow> run_all q2 wb)"
      using a(3,4) by blast
  qed
  have all: "\<exists>evs. log w' = log w @ evs \<and> filter is_call evs = []"
    if f: "flush (change r v2 w) = Inr w'" for w'
  proof -
    let ?w1 = "change r v2 w"
    have i1: "module_only ?w1"
      using exec_invariants[OF i, of "Change r v2" ?w1] by simp
    then have u: "\<forall>f\<in>set (post_queue ?w1). is_update f" by (simp add: module_only_def)
    have r: "run_all (post_queue ?w1) (?w1\<lparr>post_queue := []\<rparr>) = Inr w'"
      using f by (simp add: flush_def)
    from engine_only_fields(12)[OF run_all_engine_only[OF u r]]
    show ?thesis by (simp add: change_def split: if_splits)
  qed
  from pq n m' all show ?thesis by blast
qed

text \<open>
  The theorem at \<^verbatim>\<open>to(ref, vars)\<close>, created after a \<^verbatim>\<open>set\<close> on an element, the source
  going from element 1 to element 2.
\<close>

theorem retarget_creates_new_handle_keeps_old_witness:
  "execs [Change 0 (Element 1), Tween (CallSet (Plain (Element 7)) 3), Tween (CallTo (Reactive 0) 4), Flush] (init accepts_all) = Inr (projr (execs [Change 0 (Element 1), Tween (CallSet (Plain (Element 7)) 3), Tween (CallTo (Reactive 0) 4), Flush] (init accepts_all))) \<and>
   UpdateFn (Reactive 0) FTo [Ref 4] 1 \<in> set (watchers (projr (execs [Change 0 (Element 1), Tween (CallSet (Plain (Element 7)) 3), Tween (CallTo (Reactive 0) 4), Flush] (init accepts_all)))) \<and>
   cells (projr (execs [Change 0 (Element 1), Tween (CallSet (Plain (Element 7)) 3), Tween (CallTo (Reactive 0) 4), Flush] (init accepts_all))) 1 = Some 1 \<and>
   \<not> falsy (sources (projr (execs [Change 0 (Element 1), Tween (CallSet (Plain (Element 7)) 3), Tween (CallTo (Reactive 0) 4), Flush] (init accepts_all))) 0) \<and> \<not> falsy (Element 2) \<and>
   Element 2 \<noteq> sources (projr (execs [Change 0 (Element 1), Tween (CallSet (Plain (Element 7)) 3), Tween (CallTo (Reactive 0) 4), Flush] (init accepts_all))) 0 \<and>
   (\<exists>q1 q2. post_queue (change 0 (Element 2) (projr (execs [Change 0 (Element 1), Tween (CallSet (Plain (Element 7)) 3), Tween (CallTo (Reactive 0) 4), Flush] (init accepts_all)))) = q1 @ UpdateFn (Reactive 0) FTo [Ref 4] 1 # q2 \<and>
        UpdateFn (Reactive 0) FTo [Ref 4] 1 \<notin> set q1 \<and> UpdateFn (Reactive 0) FTo [Ref 4] 1 \<notin> set q2 \<and>
        (\<forall>wa. run_all q1 ((change 0 (Element 2) (projr (execs [Change 0 (Element 1), Tween (CallSet (Plain (Element 7)) 3), Tween (CallTo (Reactive 0) 4), Flush] (init accepts_all))))\<lparr>post_queue := []\<rparr>) = Inr wa \<longrightarrow>
           cells wa 1 = Some 1 \<and> 1 < next_handle wa \<and>
           run_closure (UpdateFn (Reactive 0) FTo [Ref 4] 1) wa =
             (if engine_throws wa FTo (Element 2) [Ref 4] then Inl (EngineError FTo (Element 2) [Ref 4])
              else Inr (wa\<lparr>log := log wa @ [TweenCreate FTo (Element 2) [Ref 4] (next_handle wa)],
                          next_handle := Suc (next_handle wa),
                          cells := (cells wa)(1 := Some (next_handle wa))\<rparr>)) \<and>
           flush (change 0 (Element 2) (projr (execs [Change 0 (Element 1), Tween (CallSet (Plain (Element 7)) 3), Tween (CallTo (Reactive 0) 4), Flush] (init accepts_all)))) =
             (case run_closure (UpdateFn (Reactive 0) FTo [Ref 4] 1) wa of
                Inl e \<Rightarrow> Inl e | Inr wb \<Rightarrow> run_all q2 wb))) \<and>
     (flush (change 0 (Element 2) (projr (execs [Change 0 (Element 1), Tween (CallSet (Plain (Element 7)) 3), Tween (CallTo (Reactive 0) 4), Flush] (init accepts_all))))) = Inr (projr (flush (change 0 (Element 2) (projr (execs [Change 0 (Element 1), Tween (CallSet (Plain (Element 7)) 3), Tween (CallTo (Reactive 0) 4), Flush] (init accepts_all)))))) \<and>
     (\<exists>evs. log (projr (flush (change 0 (Element 2) (projr (execs [Change 0 (Element 1), Tween (CallSet (Plain (Element 7)) 3), Tween (CallTo (Reactive 0) 4), Flush] (init accepts_all)))))) = log (projr (execs [Change 0 (Element 1), Tween (CallSet (Plain (Element 7)) 3), Tween (CallTo (Reactive 0) 4), Flush] (init accepts_all))) @ evs \<and> filter is_call evs = [])"
proof -
  have h1: "execs [Change 0 (Element 1), Tween (CallSet (Plain (Element 7)) 3), Tween (CallTo (Reactive 0) 4), Flush] (init accepts_all) = Inr (projr (execs [Change 0 (Element 1), Tween (CallSet (Plain (Element 7)) 3), Tween (CallTo (Reactive 0) 4), Flush] (init accepts_all)))"
    by (simp add: tween_api_result init_def accepts_all_def flush_def change_def enqueue_def
          updateFactory_def gsap_tween_def)
  have h2: "UpdateFn (Reactive 0) FTo [Ref 4] 1 \<in> set (watchers (projr (execs [Change 0 (Element 1), Tween (CallSet (Plain (Element 7)) 3), Tween (CallTo (Reactive 0) 4), Flush] (init accepts_all))))"
    and h3: "cells (projr (execs [Change 0 (Element 1), Tween (CallSet (Plain (Element 7)) 3), Tween (CallTo (Reactive 0) 4), Flush] (init accepts_all))) 1 = Some 1"
    and h4: "\<not> falsy (sources (projr (execs [Change 0 (Element 1), Tween (CallSet (Plain (Element 7)) 3), Tween (CallTo (Reactive 0) 4), Flush] (init accepts_all))) 0)"
    and h6: "Element 2 \<noteq> sources (projr (execs [Change 0 (Element 1), Tween (CallSet (Plain (Element 7)) 3), Tween (CallTo (Reactive 0) 4), Flush] (init accepts_all))) 0"
    by (simp_all add: tween_api_result init_def accepts_all_def flush_def change_def enqueue_def
          updateFactory_def gsap_tween_def)
  have h5: "\<not> falsy (Element 2)" by simp
  have h7: "(flush (change 0 (Element 2) (projr (execs [Change 0 (Element 1), Tween (CallSet (Plain (Element 7)) 3), Tween (CallTo (Reactive 0) 4), Flush] (init accepts_all))))) = Inr (projr (flush (change 0 (Element 2) (projr (execs [Change 0 (Element 1), Tween (CallSet (Plain (Element 7)) 3), Tween (CallTo (Reactive 0) 4), Flush] (init accepts_all))))))"
    by (simp add: tween_api_result init_def accepts_all_def flush_def change_def enqueue_def
          updateFactory_def gsap_tween_def)
  note t = retarget_creates_new_handle_keeps_old[OF h1 h2 h3 h4 h5 h6]
  from t have a: "\<exists>evs. log (projr (flush (change 0 (Element 2) (projr (execs [Change 0 (Element 1), Tween (CallSet (Plain (Element 7)) 3), Tween (CallTo (Reactive 0) 4), Flush] (init accepts_all)))))) = log (projr (execs [Change 0 (Element 1), Tween (CallSet (Plain (Element 7)) 3), Tween (CallTo (Reactive 0) 4), Flush] (init accepts_all))) @ evs \<and> filter is_call evs = []"
    using h7 by blast
  from t h1 h2 h3 h4 h5 h6 h7 a show ?thesis by blast
qed

subsection \<open>C9: preset merge\<close>

text \<open>
  C9. Resolving a preset with overrides (an object: each field once) gives, for every
  field \<open>k\<close>, the override's value when the overrides define \<open>k\<close> and the preset's value
  otherwise; without overrides it gives the preset. Preset
  \<^verbatim>\<open>{duration: 1, ease: "power1"}\<close> with override \<^verbatim>\<open>{duration: 2}\<close> resolves to
  \<^verbatim>\<open>{duration: 2, ease: "power1"}\<close>; a nested object is replaced whole, not merged.
\<close>

theorem preset_merge_is_shallow:
  assumes "distinct (map fst overrides)"
  shows "map_of (resolve_preset registry \<lparr>animationOptions = p, tweenValues = Some overrides\<rparr>) k =
           (case map_of overrides k of Some v \<Rightarrow> Some v | None \<Rightarrow> map_of (registry p) k) \<and>
         resolve_preset registry \<lparr>animationOptions = p, tweenValues = None\<rparr> = registry p \<and>
         resolve_preset (\<lambda>i. [(''duration'', Num 1), (''ease'', Str ''power1'')])
            \<lparr>animationOptions = p, tweenValues = Some [(''duration'', Num 2)]\<rparr> =
           [(''duration'', Num 2), (''ease'', Str ''power1'')] \<and>
         resolve_preset (\<lambda>i. [(''scrollTrigger'', Obj [(''start'', Num 1), (''end'', Num 2)])])
            \<lparr>animationOptions = p, tweenValues = Some [(''scrollTrigger'', Obj [(''start'', Num 3)])]\<rparr> =
           [(''scrollTrigger'', Obj [(''start'', Num 3)])]"
  using assms by (simp add: resolve_preset_def map_of_merge_vars) (simp add: merge_vars_def)

text \<open>
  The theorem at the preset and override of the example, at both fields.
\<close>

theorem preset_merge_is_shallow_witness:
  "distinct (map fst [(''duration'', Num 2)]) \<and>
   map_of (resolve_preset (\<lambda>i. [(''duration'', Num 1), (''ease'', Str ''power1'')])
       \<lparr>animationOptions = (), tweenValues = Some [(''duration'', Num 2)]\<rparr>) ''duration'' = Some (Num 2) \<and>
   map_of (resolve_preset (\<lambda>i. [(''duration'', Num 1), (''ease'', Str ''power1'')])
       \<lparr>animationOptions = (), tweenValues = Some [(''duration'', Num 2)]\<rparr>) ''ease'' = Some (Str ''power1'')"
proof -
  have h: "distinct (map fst [(''duration'', Num 2)])" by simp
  from preset_merge_is_shallow[OF h, of "\<lambda>i. [(''duration'', Num 1), (''ease'', Str ''power1'')]" "()" "''duration''"]
    preset_merge_is_shallow[OF h, of "\<lambda>i. [(''duration'', Num 1), (''ease'', Str ''power1'')]" "()" "''ease''"]
    h show ?thesis by simp
qed

subsection \<open>C10: no scope teardown for a timeline\<close>

text \<open>
  C10. In every state a component can reach, \<^verbatim>\<open>timeline()\<close> registers no scope dispose
  callback, and whatever the component and the host do afterwards, the end of the scope
  sends the engine nothing: no \<^verbatim>\<open>kill\<close> and no other call on the timeline handle.
\<close>

theorem timeline_has_no_scope_teardown:
  assumes "execs xs (init thr) = Inr w"
  shows "\<exists>ctl w1. useGsap_timeline v w = Inr (ctl, w1) \<and> disposers w1 = disposers w \<and>
           (\<forall>ys w2. execs ys w1 = Inr w2 \<longrightarrow> (\<exists>w3. scope_end w2 = Inr w3 \<and> log w3 = log w2))"
proof -
  let ?ctl = "\<lparr>tl_h = next_handle w, tlFn = next_hook w\<rparr>"
  obtain w1 where 1: "useGsap_timeline v w = Inr (?ctl, w1)"
    and 2: "disposers w1 = disposers w"
    by (simp add: timeline_result)
  have x1: "execs (xs @ [Timeline v]) (init thr) = Inr w1"
    using assms 1 by (simp add: execs_append)
  have "\<exists>w3. scope_end w2 = Inr w3 \<and> log w3 = log w2"
    if "execs ys w1 = Inr w2" for ys w2
  proof -
    have "execs ((xs @ [Timeline v]) @ ys) (init thr) = Inr w2"
      using x1 that by (simp add: execs_append del: append_assoc)
    then have "module_only w2" by (rule reachable_invariants(1))
    then show ?thesis by (rule scope_end_silent)
  qed
  with 1 2 show ?thesis by blast
qed

text \<open>
  The theorem at a component that has created one binding before.
\<close>

theorem timeline_has_no_scope_teardown_witness:
  "execs [Tween (CallSet (Plain Null) 0)] (init accepts_all) = Inr (snd (tween_api (CallSet (Plain Null) 0) (init accepts_all))) \<and>
   (\<exists>ctl w1. useGsap_timeline None (snd (tween_api (CallSet (Plain Null) 0) (init accepts_all))) = Inr (ctl, w1) \<and> disposers w1 = disposers (snd (tween_api (CallSet (Plain Null) 0) (init accepts_all))) \<and>
           (\<forall>ys w2. execs ys w1 = Inr w2 \<longrightarrow> (\<exists>w3. scope_end w2 = Inr w3 \<and> log w3 = log w2)))"
proof -
  have h: "execs [Tween (CallSet (Plain Null) 0)] (init accepts_all) = Inr (snd (tween_api (CallSet (Plain Null) 0) (init accepts_all)))"
    by simp
  from timeline_has_no_scope_teardown[OF h, of None] h show ?thesis by blast
qed

end
